theory Spec2Isabelle
  imports Main "HOL-Library.Word"
begin

unbundle bit_operations_syntax

section \<open>Python values and exceptions\<close>

text \<open>
  The module \<^verbatim>\<open>zkps.py\<close> computes with arbitrary-precision integers (\<^verbatim>\<open>mpz\<close>, \<^verbatim>\<open>int\<close>),
  modelled as \<^typ>\<open>int\<close>. Every exception a call can raise is a value: a function that can
  raise returns \<open>error + 'a\<close>, with \<open>Inl\<close> for the exception.
\<close>

datatype error = AssertionError | IndexError | ZeroDivisionError | TypeError | AttributeError

definition bind_e :: "error + 'a \<Rightarrow> ('a \<Rightarrow> error + 'b) \<Rightarrow> error + 'b" where
  "bind_e m f = (case m of Inl e \<Rightarrow> Inl e | Inr v \<Rightarrow> f v)"

text \<open>Python's \<^verbatim>\<open>a % b\<close> on integers: floor remainder, \<^verbatim>\<open>ZeroDivisionError\<close> for \<open>b = 0\<close>.\<close>

definition pymod :: "int \<Rightarrow> int \<Rightarrow> error + int" where
  "pymod a b = (if b = 0 then Inl ZeroDivisionError else Inr (a mod b))"

section \<open>SHA-256 (\<^verbatim>\<open>hashlib.sha256\<close>)\<close>

text \<open>
  The hash object of \<^verbatim>\<open>hashlib\<close> is modelled by the bytes fed to it so far: \<^verbatim>\<open>update\<close>
  appends, \<^verbatim>\<open>digest\<close> is SHA-256 (FIPS 180-4) of the buffer.
\<close>

type_synonym byte = "8 word"
type_synonym u32 = "32 word"

definition rotr :: "nat \<Rightarrow> u32 \<Rightarrow> u32" where
  "rotr n x = drop_bit n x OR push_bit (32 - n) x"

definition Ch :: "u32 \<Rightarrow> u32 \<Rightarrow> u32 \<Rightarrow> u32" where
  "Ch x y z = (x AND y) XOR (NOT x AND z)"

definition Maj :: "u32 \<Rightarrow> u32 \<Rightarrow> u32 \<Rightarrow> u32" where
  "Maj x y z = (x AND y) XOR (x AND z) XOR (y AND z)"

definition bsig0 :: "u32 \<Rightarrow> u32" where
  "bsig0 x = rotr 2 x XOR rotr 13 x XOR rotr 22 x"

definition bsig1 :: "u32 \<Rightarrow> u32" where
  "bsig1 x = rotr 6 x XOR rotr 11 x XOR rotr 25 x"

definition ssig0 :: "u32 \<Rightarrow> u32" where
  "ssig0 x = rotr 7 x XOR rotr 18 x XOR drop_bit 3 x"

definition ssig1 :: "u32 \<Rightarrow> u32" where
  "ssig1 x = rotr 17 x XOR rotr 19 x XOR drop_bit 10 x"

text \<open>
  The 64 round constants of FIPS 180-4 (the first 32 bits of the fractional parts of the cube
  roots of the first 64 primes), written in decimal.
\<close>

definition K256 :: "u32 list" where
  "K256 =
    [1116352408, 1899447441, 3049323471, 3921009573,
     961987163, 1508970993, 2453635748, 2870763221,
     3624381080, 310598401, 607225278, 1426881987,
     1925078388, 2162078206, 2614888103, 3248222580,
     3835390401, 4022224774, 264347078, 604807628,
     770255983, 1249150122, 1555081692, 1996064986,
     2554220882, 2821834349, 2952996808, 3210313671,
     3336571891, 3584528711, 113926993, 338241895,
     666307205, 773529912, 1294757372, 1396182291,
     1695183700, 1986661051, 2177026350, 2456956037,
     2730485921, 2820302411, 3259730800, 3345764771,
     3516065817, 3600352804, 4094571909, 275423344,
     430227734, 506948616, 659060556, 883997877,
     958139571, 1322822218, 1537002063, 1747873779,
     1955562222, 2024104815, 2227730452, 2361852424,
     2428436474, 2756734187, 3204031479, 3329325298]"

text \<open>The length of the message in bits, as 8 bytes, most significant first.\<close>

definition be64 :: "nat \<Rightarrow> byte list" where
  "be64 n = map (\<lambda>i. ucast (drop_bit (8 * (7 - i)) (word_of_nat n :: 64 word))) [0..<8]"

definition pad :: "byte list \<Rightarrow> byte list" where
  "pad m = m @ [0x80] @ replicate ((119 - length m mod 64) mod 64) 0 @ be64 (8 * length m)"

fun be32s :: "byte list \<Rightarrow> u32 list" where
  "be32s (a # b # c # d # rest) =
     (push_bit 24 (ucast a) OR push_bit 16 (ucast b) OR push_bit 8 (ucast c) OR ucast d) # be32s rest"
| "be32s _ = []"

fun schedule :: "nat \<Rightarrow> u32 list \<Rightarrow> u32 list" where
  "schedule 0 w = w"
| "schedule (Suc n) w =
     schedule n (w @ [ssig1 (w ! (length w - 2)) + w ! (length w - 7)
                      + ssig0 (w ! (length w - 15)) + w ! (length w - 16)])"

type_synonym sha_state = "u32 \<times> u32 \<times> u32 \<times> u32 \<times> u32 \<times> u32 \<times> u32 \<times> u32"

fun round256 :: "sha_state \<Rightarrow> u32 \<times> u32 \<Rightarrow> sha_state" where
  "round256 (a, b, c, d, e, f, g, h) (k, w) =
     (let t1 = h + bsig1 e + Ch e f g + k + w;
          t2 = bsig0 a + Maj a b c
      in (t1 + t2, a, b, c, d + t1, e, f, g))"

fun compress :: "sha_state \<Rightarrow> byte list \<Rightarrow> sha_state" where
  "compress (a, b, c, d, e, f, g, h) block =
     (case foldl round256 (a, b, c, d, e, f, g, h) (zip K256 (schedule 48 (be32s block))) of
        (a', b', c', d', e', f', g', h') \<Rightarrow>
          (a + a', b + b', c + c', d + d', e + e', f + f', g + g', h + h'))"

fun blocks :: "nat \<Rightarrow> sha_state \<Rightarrow> byte list \<Rightarrow> sha_state" where
  "blocks 0 s m = s"
| "blocks (Suc n) s m = blocks n (compress s (take 64 m)) (drop 64 m)"

definition be32_bytes :: "u32 \<Rightarrow> byte list" where
  "be32_bytes w = [ucast (drop_bit 24 w), ucast (drop_bit 16 w), ucast (drop_bit 8 w), ucast w]"

definition sha256 :: "byte list \<Rightarrow> byte list" where
  "sha256 m =
     (case blocks (length (pad m) div 64)
             (0x6a09e667, 0xbb67ae85, 0x3c6ef372, 0xa54ff53a,
              0x510e527f, 0x9b05688c, 0x1f83d9ab, 0x5be0cd19) (pad m) of
        (a, b, c, d, e, f, g, h) \<Rightarrow> concat (map be32_bytes [a, b, c, d, e, f, g, h]))"

section \<open>The external group engine\<close>

text \<open>
  Modelled from the spec: the class \<^verbatim>\<open>SchnorrGroup\<close> of the module \<^verbatim>\<open>integer\<close> is not among
  the sources. The spec describes it as a group with a prime modulus \<open>p\<close> and a prime order
  \<open>q\<close> that exposes modular exponentiation, a membership test and its order; the source reads
  its fields \<^verbatim>\<open>p\<close> and \<^verbatim>\<open>q\<close>.
\<close>

record SchnorrGroup =
  grp_p :: int
  grp_q :: int

text \<open>Modelled from the spec: \<^verbatim>\<open>G.order()\<close> is the order \<open>q\<close> of the group.\<close>

definition order :: "SchnorrGroup \<Rightarrow> int" where
  "order G = grp_q G"

text \<open>
  Modelled from the spec: the inverse of \<open>x\<close> modulo \<open>m\<close>, found by search among the residues;
  \<open>None\<close> when \<open>x\<close> has no inverse.
\<close>

definition mod_inverse :: "int \<Rightarrow> int \<Rightarrow> int option" where
  "mod_inverse x m = find (\<lambda>y. x * y mod m = 1) [0..m - 1]"

text \<open>
  Modelled from the spec: \<^verbatim>\<open>G.powmod(x, e)\<close> is modular exponentiation under the modulus of
  the group. The source calls it with the exponent \<open>-1\<close> for the modular inverse, so a negative
  exponent is a power of the inverse; without an inverse (or with a zero modulus) the
  arbitrary-precision library raises \<^verbatim>\<open>ZeroDivisionError\<close>.
\<close>

definition powmod :: "SchnorrGroup \<Rightarrow> int \<Rightarrow> int \<Rightarrow> error + int" where
  "powmod G x e =
     (if grp_p G = 0 then Inl ZeroDivisionError
      else if 0 \<le> e then Inr (x ^ nat e mod grp_p G)
      else (case mod_inverse x (grp_p G) of
              None \<Rightarrow> Inl ZeroDivisionError
            | Some y \<Rightarrow> Inr (y ^ nat (- e) mod grp_p G)))"

text \<open>
  Modelled from the spec: \<^verbatim>\<open>G.is_element(x)\<close>, the membership test of the subgroup of order
  \<open>q\<close> of the residues modulo \<open>p\<close>.
\<close>

definition is_element :: "SchnorrGroup \<Rightarrow> int \<Rightarrow> bool" where
  "is_element G x \<longleftrightarrow> 0 < x \<and> x < grp_p G \<and> x ^ nat (grp_q G) mod grp_p G = 1"

text \<open>
  Modelled from the spec: what every group object satisfies by construction, as far as the
  proofs need it: a modulus above 1 and a positive order (both are primes in the spec).
\<close>

definition valid_group :: "SchnorrGroup \<Rightarrow> bool" where
  "valid_group G \<longleftrightarrow> 1 < grp_p G \<and> 0 < grp_q G"

text \<open>
  Modelled from the spec: the key and ciphertext classes of the module \<^verbatim>\<open>elgamal\<close> (not among
  the sources): a key is a group with a generator \<open>g\<close> and a public key \<open>y\<close>, a ciphertext is
  a pair \<open>(a, b)\<close> tied to a group.
\<close>

record ElGamalKeypair =
  key_G_q :: SchnorrGroup
  key_g :: int
  key_y :: int

record ElGamalCiphertext =
  ct_G_q :: SchnorrGroup
  ct_a :: int
  ct_b :: int

section \<open>Challenge derivation\<close>

text \<open>
  \<^verbatim>\<open>mpz.digits()\<close>: the decimal digits of the value, most significant first, with a
  leading minus sign for a negative value.
\<close>

fun digits_nat :: "nat \<Rightarrow> string" where
  "digits_nat n =
     (if n < 10 then [char_of (48 + n)] else digits_nat (n div 10) @ [char_of (48 + n mod 10)])"

declare digits_nat.simps [simp del]

definition digits :: "int \<Rightarrow> string" where
  "digits v = (if v < 0 then CHR ''-'' # digits_nat (nat (- v)) else digits_nat (nat v))"

text \<open>\<^verbatim>\<open>str.encode()\<close> on a string of ASCII characters: one byte per character.\<close>

definition encode :: "string \<Rightarrow> byte list" where
  "encode s = map (\<lambda>ch. word_of_nat (of_char ch)) s"

text \<open>\<^verbatim>\<open>int.from_bytes(bytes, byteorder='little')\<close>.\<close>

definition from_bytes_little :: "byte list \<Rightarrow> int" where
  "from_bytes_little bs = foldr (\<lambda>b acc. uint b + 256 * acc) bs 0"

text \<open>
  \<^verbatim>\<open>hashfunc\<close>: the loop feeds the digits of every value to the hash object; the digest, read
  as a little-endian integer, is reduced modulo the order of the group.
\<close>

definition hashfunc :: "SchnorrGroup \<Rightarrow> int list \<Rightarrow> error + int" where
  "hashfunc G_q values =
     (let h = foldl (\<lambda>h v. h @ encode (digits v)) [] values
      in pymod (from_bytes_little (sha256 h)) (order G_q))"

text \<open>The inner generator of \<^verbatim>\<open>hashfunc_bits\<close>: for every byte, bit \<open>i\<close> for \<open>i = 0, \<dots>, 7\<close>.\<close>

definition bits_from_bytes :: "byte list \<Rightarrow> int list" where
  "bits_from_bytes array = concat (map (\<lambda>b. map (\<lambda>i. uint (drop_bit i b AND 1)) [0..<8]) array)"

definition hashfunc_bits :: "int list \<Rightarrow> int list" where
  "hashfunc_bits values =
     (let h = foldl (\<lambda>h v. h @ encode (digits v)) [] values
      in bits_from_bytes (sha256 h))"

section \<open>Equality of discrete logarithms (Chaum-Pedersen)\<close>

text \<open>
  \<^verbatim>\<open>proof_dleq\<close>; the argument \<open>w\<close> is the value that \<^verbatim>\<open>random_integer(0, G_q.order())\<close>
  returns.
\<close>

definition proof_dleq ::
  "SchnorrGroup \<Rightarrow> int \<Rightarrow> int \<Rightarrow> int \<Rightarrow> int \<Rightarrow> int \<Rightarrow> int \<Rightarrow> error + (int \<times> int \<times> int)" where
  "proof_dleq G_q g_1 h_1 g_2 h_2 alpha w =
     bind_e (powmod G_q g_1 w) (\<lambda>t_1.
     bind_e (powmod G_q g_2 w) (\<lambda>t_2.
     bind_e (hashfunc G_q [h_1, h_2, t_1, t_2]) (\<lambda>c.
     bind_e (pymod (w - alpha * c) (grp_q G_q)) (\<lambda>res.
     Inr (t_1, t_2, res)))))"

definition verify_dleq ::
  "SchnorrGroup \<Rightarrow> int \<times> int \<times> int \<Rightarrow> int \<Rightarrow> int \<Rightarrow> int \<Rightarrow> int \<Rightarrow> error + bool" where
  "verify_dleq G_q prf g_1 h_1 g_2 h_2 =
     (case prf of (t_1, t_2, res) \<Rightarrow>
        bind_e (hashfunc G_q [h_1, h_2, t_1, t_2]) (\<lambda>c.
        bind_e (powmod G_q g_1 res) (\<lambda>x1.
        bind_e (powmod G_q h_1 c) (\<lambda>x2.
        bind_e (pymod (x1 * x2) (grp_p G_q)) (\<lambda>v1.
        bind_e (powmod G_q g_2 res) (\<lambda>x3.
        bind_e (powmod G_q h_2 c) (\<lambda>x4.
        bind_e (pymod (x3 * x4) (grp_p G_q)) (\<lambda>v2.
        let b_1 = (t_1 = v1); b_2 = (t_2 = v2)
        in Inr (b_1 \<and> b_2)))))))))"

section \<open>Disjunctive plaintext equality\<close>

text \<open>Python's \<^verbatim>\<open>xs[i] = v\<close>: a negative index counts from the end, \<^verbatim>\<open>IndexError\<close> out of range.\<close>

definition list_set :: "'a list \<Rightarrow> int \<Rightarrow> 'a \<Rightarrow> error + 'a list" where
  "list_set xs i v =
     (let n = int (length xs); k = (if i < 0 then n + i else i)
      in if 0 \<le> k \<and> k < n then Inr (xs[nat k := v]) else Inl IndexError)"

text \<open>
  The lists \<^verbatim>\<open>t\<close>, \<^verbatim>\<open>res\<close> and \<^verbatim>\<open>challenges\<close> start filled with \<^verbatim>\<open>None\<close>. Reading the digits of
  \<^verbatim>\<open>None\<close> raises \<^verbatim>\<open>AttributeError\<close>, adding it raises \<^verbatim>\<open>TypeError\<close>.
\<close>

fun the_values :: "int option list \<Rightarrow> error + int list" where
  "the_values [] = Inr []"
| "the_values (None # xs) = Inl AttributeError"
| "the_values (Some x # xs) = bind_e (the_values xs) (\<lambda>vs. Inr (x # vs))"

fun sum_values :: "int option list \<Rightarrow> error + int" where
  "sum_values [] = Inr 0"
| "sum_values (None # xs) = Inl TypeError"
| "sum_values (Some x # xs) = bind_e (sum_values xs) (\<lambda>s. Inr (x + s))"

type_synonym or_state = "(int option \<times> int option) list \<times> int option list \<times> int option list \<times> nat"

text \<open>
  The simulation loop \<^verbatim>\<open>for i in range(len(c_prime))\<close>. The successive results of
  \<^verbatim>\<open>random_integer\<close> are \<open>rnd 0\<close>, \<open>rnd 1\<close>, \<dots>; the last component of the state counts the
  values drawn so far.
\<close>

fun simulate ::
  "ElGamalKeypair \<Rightarrow> ElGamalCiphertext list \<Rightarrow> int \<Rightarrow> int \<Rightarrow> int \<Rightarrow> (nat \<Rightarrow> int) \<Rightarrow> nat list
     \<Rightarrow> or_state \<Rightarrow> error + or_state" where
  "simulate key c_prime a_inv b_inv j rnd [] st = Inr st"
| "simulate key c_prime a_inv b_inv j rnd (i # rest) (t, res, challenges, k) =
     (if int i = j then simulate key c_prime a_inv b_inv j rnd rest (t, res, challenges, k)
      else
        let G_q = key_G_q key; res_i = rnd k; challenge_i = rnd (k + 1) in
        bind_e (powmod G_q (key_g key) res_i) (\<lambda>x1.
        bind_e (powmod G_q (ct_a (c_prime ! i) * a_inv) challenge_i) (\<lambda>x2.
        bind_e (pymod (x1 * x2) (grp_p G_q)) (\<lambda>t1.
        bind_e (powmod G_q (key_y key) res_i) (\<lambda>x3.
        bind_e (powmod G_q (ct_b (c_prime ! i) * b_inv) challenge_i) (\<lambda>x4.
        bind_e (pymod (x3 * x4) (grp_p G_q)) (\<lambda>t2.
        simulate key c_prime a_inv b_inv j rnd rest
          (t[i := (Some t1, Some t2)], res[i := Some res_i],
           challenges[i := Some challenge_i], k + 2))))))))"

text \<open>
  The master challenge of both the prover and the verifier: the hash of
  \<^verbatim>\<open>[c.a] + [c.a for c in c_prime] + [c.b] + [c.b for c in c_prime] + [ti1 ...] + [ti2 ...]\<close>.
\<close>

definition master_challenge ::
  "SchnorrGroup \<Rightarrow> ElGamalCiphertext \<Rightarrow> ElGamalCiphertext list \<Rightarrow> int list \<Rightarrow> int list
     \<Rightarrow> error + int" where
  "master_challenge G_q c c_prime t1s t2s =
     hashfunc G_q ([ct_a c] @ map ct_a c_prime @ [ct_b c] @ map ct_b c_prime @ t1s @ t2s)"

definition proof_plaintext_equality_or ::
  "ElGamalKeypair \<Rightarrow> ElGamalCiphertext \<Rightarrow> int \<Rightarrow> ElGamalCiphertext list \<Rightarrow> int \<Rightarrow> int
     \<Rightarrow> (nat \<Rightarrow> int)
     \<Rightarrow> error + ((int option \<times> int option) list \<times> int option list \<times> int option list)" where
  "proof_plaintext_equality_or key c r c_prime j r_j rnd =
     (let G_q = key_G_q key;
          t0 = map (\<lambda>_. (None, None)) c_prime;
          res0 = map (\<lambda>_. None) c_prime;
          challenges0 = map (\<lambda>_. None) c_prime;
          w_j = rnd 0
      in
      bind_e (powmod G_q (key_g key) w_j) (\<lambda>u1.
      bind_e (powmod G_q (key_y key) w_j) (\<lambda>u2.
      bind_e (list_set t0 j (Some u1, Some u2)) (\<lambda>t1.
      bind_e (powmod G_q (ct_a c) (- 1)) (\<lambda>a_inv.
      bind_e (powmod G_q (ct_b c) (- 1)) (\<lambda>b_inv.
      bind_e (simulate key c_prime a_inv b_inv j rnd [0..<length c_prime]
                (t1, res0, challenges0, 1)) (\<lambda>(t, res, challenges, k).
      bind_e (the_values (map fst t)) (\<lambda>t1s.
      bind_e (the_values (map snd t)) (\<lambda>t2s.
      bind_e (master_challenge G_q c c_prime t1s t2s) (\<lambda>challenge.
      bind_e (sum_values (map (\<lambda>i. challenges ! i)
                (filter (\<lambda>i. int i \<noteq> j) [0..<length challenges]))) (\<lambda>s.
      bind_e (pymod (challenge - s) (grp_p G_q)) (\<lambda>challenge_j.
      bind_e (list_set challenges j (Some challenge_j)) (\<lambda>challenges'.
      bind_e (pymod (w_j - (r_j - r) * challenge_j) (order G_q)) (\<lambda>res_j.
      bind_e (list_set res j (Some res_j)) (\<lambda>res'.
      Inr (t, res', challenges'))))))))))))))))"

text \<open>The checking loop of the verifier over \<^verbatim>\<open>zip(t, res, challenges, c_prime)\<close>.\<close>

fun check_all ::
  "ElGamalKeypair \<Rightarrow> int \<Rightarrow> int \<Rightarrow> ((int \<times> int) \<times> int \<times> int \<times> ElGamalCiphertext) list
     \<Rightarrow> error + (bool list \<times> bool list)" where
  "check_all key a_inv b_inv [] = Inr ([], [])"
| "check_all key a_inv b_inv (((ti1, ti2), res_i, challenge_i, c_prime_i) # rest) =
     (let G_q = key_G_q key in
      bind_e (powmod G_q (key_g key) res_i) (\<lambda>x1.
      bind_e (powmod G_q (ct_a c_prime_i * a_inv) challenge_i) (\<lambda>x2.
      bind_e (pymod (x1 * x2) (grp_p G_q)) (\<lambda>v1.
      bind_e (powmod G_q (key_y key) res_i) (\<lambda>x3.
      bind_e (powmod G_q (ct_b c_prime_i * b_inv) challenge_i) (\<lambda>x4.
      bind_e (pymod (x3 * x4) (grp_p G_q)) (\<lambda>v2.
      bind_e (check_all key a_inv b_inv rest) (\<lambda>(b1, b2).
      Inr ((ti1 = v1) # b1, (ti2 = v2) # b2)))))))))"

definition verify_plaintext_equality_or ::
  "(int \<times> int) list \<times> int list \<times> int list \<Rightarrow> ElGamalKeypair \<Rightarrow> ElGamalCiphertext
     \<Rightarrow> ElGamalCiphertext list \<Rightarrow> error + bool" where
  "verify_plaintext_equality_or prf key c c_prime =
     (case prf of (t, res, challenges) \<Rightarrow>
        let G_q = key_G_q key in
        if \<not> (length challenges = length res \<and> length res = length t
               \<and> length t = length c_prime)
        then Inl AssertionError
        else
          bind_e (master_challenge G_q c c_prime (map fst t) (map snd t)) (\<lambda>challenge.
          bind_e (pymod (sum_list challenges) (grp_p G_q)) (\<lambda>s.
          let b_sum_of_challenges = (challenge = s) in
          bind_e (powmod G_q (ct_a c) (- 1)) (\<lambda>a_inv.
          bind_e (powmod G_q (ct_b c) (- 1)) (\<lambda>b_inv.
          bind_e (check_all key a_inv b_inv (zip t (zip res (zip challenges c_prime))))
            (\<lambda>(b1, b2).
          Inr (b_sum_of_challenges \<and> list_all id b1 \<and> list_all id b2)))))))"

text \<open>
  The transcript as the verifier receives it: the three lists that the prover returns, read
  as lists of integers (an entry that is still \<^verbatim>\<open>None\<close> has no integer value).
\<close>

definition transcript_values ::
  "(int option \<times> int option) list \<times> int option list \<times> int option list
     \<Rightarrow> error + ((int \<times> int) list \<times> int list \<times> int list)" where
  "transcript_values tr =
     (case tr of (t, res, challenges) \<Rightarrow>
        bind_e (the_values (map fst t)) (\<lambda>t1s.
        bind_e (the_values (map snd t)) (\<lambda>t2s.
        bind_e (the_values res) (\<lambda>rs.
        bind_e (the_values challenges) (\<lambda>cs.
        Inr (zip t1s t2s, rs, cs))))))"

section \<open>Knowledge of the discrete logarithm of a plaintext\<close>

definition verify_plaintext_dlog ::
  "int \<times> int \<times> int \<times> int \<Rightarrow> ElGamalKeypair \<Rightarrow> ElGamalCiphertext \<Rightarrow> int \<Rightarrow> error + bool" where
  "verify_plaintext_dlog prf key c h =
     (let G_q = key_G_q key; a = ct_a c; b = ct_b c; g = key_g key; y = key_y key in
      case prf of (t_1, t_2, res1, res2) \<Rightarrow>
        bind_e (hashfunc G_q [g, h, y, t_1, t_2, a, b]) (\<lambda>challenge.
        bind_e (powmod G_q h res1) (\<lambda>x1.
        bind_e (powmod G_q y res2) (\<lambda>x2.
        bind_e (pymod (x1 * x2) (grp_p G_q)) (\<lambda>lhs1.
        bind_e (powmod G_q b challenge) (\<lambda>x3.
        bind_e (pymod (t_1 * x3) (grp_p G_q)) (\<lambda>rhs1.
        let b1 = (lhs1 = rhs1) in
        bind_e (powmod G_q g res2) (\<lambda>lhs2.
        bind_e (powmod G_q a challenge) (\<lambda>x4.
        bind_e (pymod (t_2 * x4) (grp_p G_q)) (\<lambda>rhs2.
        let b2 = (lhs2 = rhs2) in
        Inr (b1 \<and> b2)))))))))))"

section \<open>Discrete logarithm equal to a double discrete logarithm\<close>

text \<open>
  The loop \<^verbatim>\<open>for r_i, c_i in zip(r, c)\<close> of the verifier, which recomputes the commitments;
  \<^verbatim>\<open>B if c_i else g\<close> takes \<open>B\<close> for every nonzero \<open>c_i\<close>.
\<close>

fun recompute ::
  "SchnorrGroup \<Rightarrow> SchnorrGroup \<Rightarrow> int \<Rightarrow> int \<Rightarrow> int \<Rightarrow> int \<Rightarrow> int \<Rightarrow> (int \<times> int) list
     \<Rightarrow> error + (int list \<times> int list)" where
  "recompute G_q G_r g h y A B [] = Inr ([], [])"
| "recompute G_q G_r g h y A B ((r_i, c_i) # rest) =
     bind_e (powmod G_r y r_i) (\<lambda>e.
     bind_e (powmod G_q (if c_i \<noteq> 0 then B else g) e) (\<lambda>t_gi.
     bind_e (powmod G_r h r_i) (\<lambda>x1.
     bind_e (powmod G_r A c_i) (\<lambda>x2.
     bind_e (pymod (x1 * x2) (grp_p G_r)) (\<lambda>t_hi.
     bind_e (recompute G_q G_r g h y A B rest) (\<lambda>(t_g, t_h).
     Inr (t_gi # t_g, t_hi # t_h)))))))"

definition verify_dl_equal_ddl ::
  "int list \<times> int list \<Rightarrow> SchnorrGroup \<Rightarrow> SchnorrGroup \<Rightarrow> int \<Rightarrow> int \<Rightarrow> int \<Rightarrow> int \<Rightarrow> int
     \<Rightarrow> error + bool" where
  "verify_dl_equal_ddl prf G_q G_r g h y A B =
     (if grp_p G_q \<noteq> grp_p G_r * 2 + 1 then Inl AssertionError
      else if \<not> is_element G_q g then Inl AssertionError
      else if \<not> is_element G_q B then Inl AssertionError
      else if \<not> is_element G_r h then Inl AssertionError
      else if \<not> is_element G_r y then Inl AssertionError
      else if \<not> is_element G_r A then Inl AssertionError
      else
        case prf of (c, r) \<Rightarrow>
          bind_e (recompute G_q G_r g h y A B (zip r c)) (\<lambda>(t_g, t_h).
          let c_new = hashfunc_bits ([g, h, y, A, B] @ t_g @ t_h)
          in Inr (c = c_new)))"

section \<open>Reference definitions of the specification\<close>

text \<open>
  The specification describes the two challenge functions in words. These definitions follow
  the words, independently of the code: the canonical decimal string of a nonnegative integer
  is the string of decimal digits, without sign and without a leading zero (except for the
  string \<open>0\<close> itself), whose value is the integer.
\<close>

definition decimal_value :: "string \<Rightarrow> nat" where
  "decimal_value s = foldl (\<lambda>acc ch. 10 * acc + (of_char ch - 48)) 0 s"

definition canonical_decimal :: "nat \<Rightarrow> string \<Rightarrow> bool" where
  "canonical_decimal n s \<longleftrightarrow>
     set s \<subseteq> set ''0123456789'' \<and> (s = ''0'' \<or> (s \<noteq> [] \<and> hd s \<in> set ''123456789''))
     \<and> decimal_value s = n"

definition decimal_string :: "nat \<Rightarrow> string" where
  "decimal_string n = (THE s. canonical_decimal n s)"

definition ascii :: "string \<Rightarrow> byte list" where
  "ascii s = map (\<lambda>ch. of_nat (of_char ch)) s"

definition little_endian_value :: "byte list \<Rightarrow> nat" where
  "little_endian_value bs = (\<Sum>i<length bs. unat (bs ! i) * 256 ^ i)"

definition scalar_challenge :: "int \<Rightarrow> nat list \<Rightarrow> int" where
  "scalar_challenge q values =
     int (little_endian_value (sha256 (concat (map (\<lambda>v. ascii (decimal_string v)) values)))) mod q"

definition bit_challenge :: "nat list \<Rightarrow> int list" where
  "bit_challenge values =
     concat (map (\<lambda>b. map (\<lambda>i. if bit b i then 1 else 0) [0..<8])
               (sha256 (concat (map (\<lambda>v. ascii (decimal_string v)) values))))"

text \<open>
  The power \<open>x^e\<close> of a group element for an arbitrary integer exponent: the order of the
  element divides \<open>q\<close>, so the exponent counts modulo \<open>q\<close> (the data model of the
  specification), and a negative exponent is a power of the inverse.
\<close>

definition group_power :: "SchnorrGroup \<Rightarrow> int \<Rightarrow> int \<Rightarrow> int" where
  "group_power G x e = x ^ nat (e mod grp_q G) mod grp_p G"

section \<open>Properties of the hash model\<close>

lemma length_be32_bytes: "length (be32_bytes w) = 4"
  by (simp add: be32_bytes_def)

lemma length_sha256: "length (sha256 m) = 32"
  by (simp add: sha256_def length_be32_bytes split: prod.split)

subsection \<open>Decimal digits\<close>

lemma decimal_value_snoc:
  "decimal_value (s @ [ch]) = 10 * decimal_value s + (of_char ch - 48)"
  by (simp add: decimal_value_def)

lemma digit_char_cases:
  "d < 10 \<Longrightarrow> d = 0 \<or> d = 1 \<or> d = 2 \<or> d = 3 \<or> d = 4 \<or> d = 5 \<or> d = 6 \<or> d = 7 \<or> d = 8 \<or> d = (9::nat)"
  by arith

lemma digit_char_in: "d < 10 \<Longrightarrow> char_of (48 + d :: nat) \<in> set ''0123456789''"
  by (drule digit_char_cases) (auto simp: char_of_eq_iff)

lemma digit_char_value: "d < 10 \<Longrightarrow> (of_char (char_of (48 + d :: nat)) :: nat) - 48 = d"
  by simp

lemma digit_char_nonzero:
  "0 < d \<Longrightarrow> d < 10 \<Longrightarrow> char_of (48 + d :: nat) \<in> set ''123456789''"
  by (drule digit_char_cases) (auto simp: char_of_eq_iff)

lemma char_of_value:
  "ch \<in> set ''0123456789'' \<Longrightarrow> char_of (48 + ((of_char ch :: nat) - 48)) = ch \<and> (of_char ch :: nat) - 48 < 10"
  by (auto simp: char_of_eq_iff)

lemma digits_nat_set: "set (digits_nat n) \<subseteq> set ''0123456789''"
proof (induction n rule: digits_nat.induct)
  case (1 n)
  show ?case
  proof (cases "n < 10")
    case True
    then show ?thesis
      using digit_char_in [of n] by (subst digits_nat.simps) simp
  next
    case False
    have "n mod 10 < 10" by simp
    then have "char_of (48 + n mod 10) \<in> set ''0123456789''"
      by (rule digit_char_in)
    with False 1 show ?thesis
      by (subst digits_nat.simps) simp
  qed
qed

lemma digits_nat_value: "decimal_value (digits_nat n) = n"
proof (induction n rule: digits_nat.induct)
  case (1 n)
  show ?case
  proof (cases "n < 10")
    case True
    then show ?thesis
      by (subst digits_nat.simps) (simp add: decimal_value_def)
  next
    case False
    with 1 have "decimal_value (digits_nat (n div 10)) = n div 10" by simp
    with False show ?thesis
      by (subst digits_nat.simps) (simp add: decimal_value_snoc)
  qed
qed

lemma digits_nat_hd:
  "0 < n \<Longrightarrow> digits_nat n \<noteq> [] \<and> hd (digits_nat n) \<in> set ''123456789''"
proof (induction n rule: digits_nat.induct)
  case (1 n)
  show ?case
  proof (cases "n < 10")
    case True
    with 1(2) show ?thesis
      using digit_char_nonzero [of n] by (subst (1 2) digits_nat.simps) simp
  next
    case False
    then have "0 < n div 10" by simp
    with 1 False have "digits_nat (n div 10) \<noteq> [] \<and> hd (digits_nat (n div 10)) \<in> set ''123456789''"
      by simp
    with False show ?thesis
      by (subst (1 2) digits_nat.simps) simp
  qed
qed

lemma digits_nat_canonical: "canonical_decimal n (digits_nat n)"
proof (cases "n = 0")
  case True
  then show ?thesis
    by (simp add: canonical_decimal_def digits_nat.simps decimal_value_def char_of_eq_iff)
next
  case False
  then show ?thesis
    using digits_nat_set [of n] digits_nat_value [of n] digits_nat_hd [of n]
    by (simp add: canonical_decimal_def)
qed


lemma decimal_value_zero_hd:
  "set s \<subseteq> set ''0123456789'' \<Longrightarrow> s \<noteq> [] \<Longrightarrow> decimal_value s = 0 \<Longrightarrow> hd s = CHR ''0''"
proof (induction s rule: rev_induct)
  case Nil
  then show ?case by simp
next
  case (snoc x xs)
  from snoc.prems have v: "decimal_value xs = 0" and d: "(of_char x :: nat) - 48 = 0"
    by (simp_all add: decimal_value_snoc)
  from snoc.prems have x: "x \<in> set ''0123456789''" by simp
  show ?case
  proof (cases "xs = []")
    case True
    from x d have "x = CHR ''0''" by auto
    with True show ?thesis by simp
  next
    case False
    with snoc v have "hd xs = CHR ''0''" by simp
    with False show ?thesis by simp
  qed
qed

lemma canonical_decimal_unique: "canonical_decimal n s \<Longrightarrow> s = digits_nat n"
proof (induction s arbitrary: n rule: rev_induct)
  case Nil
  then show ?case by (simp add: canonical_decimal_def)
next
  case (snoc x xs)
  from snoc.prems have set: "set (xs @ [x]) \<subseteq> set ''0123456789''"
    and n: "n = 10 * decimal_value xs + (of_char x - 48)"
    and hd: "xs @ [x] = ''0'' \<or> hd (xs @ [x]) \<in> set ''123456789''"
    by (auto simp add: canonical_decimal_def decimal_value_snoc)
  from set have "x \<in> set ''0123456789''" by simp
  then have x: "char_of (48 + ((of_char x :: nat) - 48)) = x" and d: "(of_char x :: nat) - 48 < 10"
    using char_of_value [of x] by simp_all
  show ?case
  proof (cases "xs = []")
    case True
    with n d x show ?thesis
      by (subst digits_nat.simps) (simp add: decimal_value_def)
  next
    case False
    with hd have hd': "hd xs \<in> set ''123456789''" by auto
    with False set have "canonical_decimal (decimal_value xs) xs"
      by (simp add: canonical_decimal_def)
    then have xs: "xs = digits_nat (decimal_value xs)"
      by (rule snoc.IH)
    have "decimal_value xs \<noteq> 0"
    proof
      assume "decimal_value xs = 0"
      with set False have "hd xs = CHR ''0''"
        using decimal_value_zero_hd [of xs] by simp
      with hd' show False by simp
    qed
    with n d have "\<not> n < 10" and "n div 10 = decimal_value xs" and "n mod 10 = of_char x - 48"
      by simp_all
    with x xs show ?thesis
      by (subst digits_nat.simps) simp
  qed
qed

lemma decimal_string_eq: "decimal_string n = digits_nat n"
  unfolding decimal_string_def
  by (rule the_equality) (auto simp: digits_nat_canonical dest: canonical_decimal_unique)

lemma digits_int: "digits (int n) = digits_nat n"
  by (simp add: digits_def)

lemma encode_eq_ascii: "encode s = ascii s"
  by (simp add: encode_def ascii_def)

lemma foldl_update: "foldl (\<lambda>h v. h @ f v) acc vs = acc @ concat (map f vs)"
  by (induction vs arbitrary: acc) simp_all

lemma little_endian_value_Cons:
  "little_endian_value (b # bs) = unat b + 256 * little_endian_value bs"
proof -
  have "(\<Sum>i<Suc (length bs). unat ((b # bs) ! i) * 256 ^ i) =
        unat ((b # bs) ! 0) * 256 ^ 0 + (\<Sum>i<length bs. unat ((b # bs) ! Suc i) * 256 ^ Suc i)"
    by (rule sum.lessThan_Suc_shift)
  also have "\<dots> = unat b + 256 * (\<Sum>i<length bs. unat (bs ! i) * 256 ^ i)"
    by (simp add: sum_distrib_left mult.left_commute)
  finally show ?thesis
    by (simp add: little_endian_value_def del: sum.lessThan_Suc)
qed

lemma from_bytes_little_eq: "from_bytes_little bs = int (little_endian_value bs)"
proof (induction bs)
  case Nil
  show ?case by (simp add: from_bytes_little_def little_endian_value_def)
next
  case (Cons b bs)
  then show ?case by (simp add: from_bytes_little_def little_endian_value_Cons)
qed

lemma hash_input_eq:
  "foldl (\<lambda>h v. h @ encode (digits v)) [] (map int values) =
     concat (map (\<lambda>v. ascii (decimal_string v)) values)"
  by (simp add: foldl_update comp_def digits_int encode_eq_ascii decimal_string_eq)

lemma bit_value: "uint (drop_bit i b AND 1) = (if bit b i then 1 else 0)" for b :: byte
  by (simp add: bit_iff_odd_drop_bit and_one_eq uint_mod_distrib mod_2_eq_odd)

lemma bits_from_bytes_eq:
  "bits_from_bytes bs = concat (map (\<lambda>b. map (\<lambda>i. if bit b i then 1 else 0) [0..<8]) bs)"
  unfolding bits_from_bytes_def by (simp only: bit_value)

lemma length_bits_from_bytes: "length (bits_from_bytes bs) = 8 * length bs"
  by (induction bs) (simp_all add: bits_from_bytes_def)

lemma set_bits_from_bytes: "set (bits_from_bytes bs) \<subseteq> {0, 1}"
  by (auto simp: bits_from_bytes_eq)

section \<open>Claims about the challenge derivation\<close>

text \<open>
  Claim C5. \<^verbatim>\<open>hashfunc\<close> (the scalar challenge) equals the reference definition of the
  specification: every value is written as its canonical decimal string (no sign, no
  separators, no leading zero except the string \<open>0\<close>), the strings are concatenated in
  argument order and hashed with SHA-256, the digest is read as an unsigned little-endian
  integer and reduced modulo the order of the group. Being a function of its arguments, it
  gives the same output for the same ordered input. The values are the nonnegative integers of
  the data model, and the order of a group is not zero.
\<close>

theorem hashfunc_is_scalar_challenge:
  assumes "order G \<noteq> 0"
  shows "hashfunc G (map int values) = Inr (scalar_challenge (order G) values)"
  using assms
  by (simp add: hashfunc_def scalar_challenge_def pymod_def hash_input_eq from_bytes_little_eq)

theorem hashfunc_is_scalar_challenge_witness:
  "order \<lparr>grp_p = 23, grp_q = 11\<rparr> \<noteq> 0
   \<and> hashfunc \<lparr>grp_p = 23, grp_q = 11\<rparr> (map int [4, 0, 17])
       = Inr (scalar_challenge (order \<lparr>grp_p = 23, grp_q = 11\<rparr>) [4, 0, 17])"
proof -
  have h: "order \<lparr>grp_p = 23, grp_q = 11\<rparr> \<noteq> 0"
    by (simp add: order_def)
  show ?thesis
    using h hashfunc_is_scalar_challenge [OF h, of "[4, 0, 17]"] by simp
qed

text \<open>
  Claim C6. \<^verbatim>\<open>hashfunc_bits\<close> (the bit challenge) uses the same decimal encoding and SHA-256
  hashing as the scalar challenge and expands the digest, byte after byte and least
  significant bit first within a byte; the result has exactly 256 entries, each 0 or 1 (for
  every list of values, whatever their sign).
\<close>

theorem hashfunc_bits_is_bit_challenge:
  "hashfunc_bits (map int values) = bit_challenge values
   \<and> length (hashfunc_bits vs) = 256
   \<and> set (hashfunc_bits vs) \<subseteq> {0, 1}"
  by (simp add: hashfunc_bits_def bit_challenge_def hash_input_eq bits_from_bytes_eq [symmetric]
      length_bits_from_bytes length_sha256 set_bits_from_bytes)

theorem hashfunc_bits_is_bit_challenge_witness:
  "hashfunc_bits (map int [4, 9]) = bit_challenge [4, 9]
   \<and> length (hashfunc_bits [- 3, 12]) = 256
   \<and> set (hashfunc_bits [- 3, 12]) \<subseteq> {0, 1}"
  using hashfunc_bits_is_bit_challenge [of "[4, 9]" "[- 3, 12]"] by simp

section \<open>Arithmetic of the group engine\<close>

lemma bind_e_Inr [simp]: "bind_e (Inr v) f = f v"
  by (simp add: bind_e_def)

lemma bind_e_Inl [simp]: "bind_e (Inl e) f = Inl e"
  by (simp add: bind_e_def)

lemma powmod_nonneg:
  "grp_p G \<noteq> 0 \<Longrightarrow> 0 \<le> e \<Longrightarrow> powmod G x e = Inr (x ^ nat e mod grp_p G)"
  by (simp add: powmod_def)

lemma mod_inverse_Some:
  assumes "1 < m" and "x * y mod m = 1"
  obtains z where "mod_inverse x m = Some z" and "x * z mod m = 1"
proof -
  have "y mod m \<in> set [0..m - 1]"
    using assms(1) by simp
  moreover have "x * (y mod m) mod m = 1"
    using assms(2) by (simp add: mod_mult_right_eq)
  ultimately have "mod_inverse x m \<noteq> None"
    unfolding mod_inverse_def find_None_iff by blast
  then obtain z where z: "mod_inverse x m = Some z" by auto
  then have "x * z mod m = 1"
    unfolding mod_inverse_def find_Some_iff by auto
  with z show ?thesis by (rule that)
qed

lemma power_mod_order:
  fixes x p :: int and n a :: nat
  assumes "x ^ n mod p = 1"
  shows "x ^ a mod p = x ^ (a mod n) mod p"
proof -
  have "x ^ a = (x ^ n) ^ (a div n) * x ^ (a mod n)"
    by (simp add: power_mult [symmetric] power_add [symmetric])
  then have "x ^ a mod p = ((x ^ n mod p) ^ (a div n) mod p * (x ^ (a mod n))) mod p"
    by (simp add: mod_mult_left_eq power_mod)
  also have "\<dots> = (1 mod p * x ^ (a mod n)) mod p"
    using assms by simp
  also have "\<dots> = x ^ (a mod n) mod p"
    by (simp add: mod_mult_left_eq)
  finally show ?thesis .
qed

lemma power_cong_order:
  fixes x p :: int and n a b :: nat
  assumes "x ^ n mod p = 1" and "a mod n = b mod n"
  shows "x ^ a mod p = x ^ b mod p"
  using power_mod_order [OF assms(1), of a] power_mod_order [OF assms(1), of b] assms(2)
  by simp

lemma element_inverse:
  assumes "valid_group G" and "is_element G x"
  shows "x * x ^ (nat (grp_q G) - 1) mod grp_p G = 1"
proof -
  from assms have "0 < nat (grp_q G)"
    by (simp add: valid_group_def)
  then have "x * x ^ (nat (grp_q G) - 1) = x ^ nat (grp_q G)"
    by (cases "nat (grp_q G)") simp_all
  with assms(2) show ?thesis
    by (simp add: is_element_def)
qed

lemma powmod_element:
  assumes G: "valid_group G" and x: "is_element G x"
  shows "powmod G x e = Inr (group_power G x e)"
proof (cases "0 \<le> e")
  case True
  have ord: "x ^ nat (grp_q G) mod grp_p G = 1"
    using x by (simp add: is_element_def)
  have "nat e mod nat (grp_q G) = nat (e mod grp_q G)"
    using True G by (simp add: valid_group_def nat_mod_distrib)
  then have "x ^ nat e mod grp_p G = x ^ nat (e mod grp_q G) mod grp_p G"
    using power_mod_order [OF ord, of "nat e"] by simp
  with True G show ?thesis
    by (simp add: powmod_def group_power_def valid_group_def)
next
  case False
  let ?p = "grp_p G" and ?n = "nat (grp_q G)"
  have ord: "x ^ ?n mod ?p = 1"
    using x by (simp add: is_element_def)
  from G have p: "1 < ?p" and q: "0 < grp_q G"
    by (simp_all add: valid_group_def)
  obtain z where z: "mod_inverse x ?p = Some z" and xz: "x * z mod ?p = 1"
    using mod_inverse_Some [OF p element_inverse [OF G x]] by blast
  let ?k = "nat (- e)" and ?r = "nat (e mod grp_q G)"
  have "(?k + ?r) mod ?n = 0"
  proof -
    have "int (?k + ?r) = - e + e mod grp_q G"
      using False q by simp
    also have "\<dots> = - (e - e mod grp_q G)"
      by simp
    also have "\<dots> = - (grp_q G * (e div grp_q G))"
      by (simp only: minus_mod_eq_mult_div)
    finally have "int (?k + ?r) mod grp_q G = 0"
      by simp
    then have "int ((?k + ?r) mod ?n) = 0"
      using q by (simp add: zmod_int)
    then show ?thesis by simp
  qed
  then have one: "x ^ (?k + ?r) mod ?p = 1"
    using power_mod_order [OF ord, of "?k + ?r"] p by simp
  have "(x * z) ^ ?k mod ?p = (x * z mod ?p) ^ ?k mod ?p"
    by (simp only: power_mod)
  then have "(x * z) ^ ?k mod ?p = 1"
    using xz p by simp
  then have xzk: "(x ^ ?k * z ^ ?k) mod ?p = 1"
    by (simp add: power_mult_distrib)
  have "z ^ ?k mod ?p = (z ^ ?k * (x ^ (?k + ?r) mod ?p)) mod ?p"
    using one by simp
  also have "\<dots> = ((x ^ ?k * z ^ ?k) * x ^ ?r) mod ?p"
    by (simp add: mod_mult_right_eq power_add mult_ac)
  also have "\<dots> = ((x ^ ?k * z ^ ?k) mod ?p * x ^ ?r) mod ?p"
    by (simp add: mod_mult_left_eq)
  also have "\<dots> = x ^ ?r mod ?p"
    using xzk by simp
  finally show ?thesis
    using False p z by (simp add: powmod_def group_power_def)
qed

lemma hashfunc_range:
  assumes "valid_group G"
  obtains c where "hashfunc G vs = Inr c" and "0 \<le> c" and "c < grp_q G"
  using assms by (simp add: hashfunc_def pymod_def order_def valid_group_def Let_def)

lemma pymod_Inr: "b \<noteq> 0 \<Longrightarrow> pymod a b = Inr (a mod b)"
  by (simp add: pymod_def)

lemma group_power_reduced:
  "valid_group G \<Longrightarrow> 0 \<le> e \<Longrightarrow> e < grp_q G \<Longrightarrow> group_power G x e = x ^ nat e mod grp_p G"
  by (simp add: group_power_def)

lemma dleq_equation:
  assumes G: "valid_group G" and x: "is_element G x" and c: "0 \<le> c" and w: "0 \<le> w"
  shows "group_power G x ((w - alpha * c) mod grp_q G) * (group_power G x alpha ^ nat c mod grp_p G)
           mod grp_p G = x ^ nat w mod grp_p G"
proof -
  let ?p = "grp_p G" and ?q = "grp_q G"
  let ?r = "(w - alpha * c) mod ?q" and ?a = "alpha mod ?q"
  from G have q: "0 < ?q" by (simp add: valid_group_def)
  have ord: "x ^ nat ?q mod ?p = 1"
    using x by (simp add: is_element_def)
  have "group_power G x ?r * (group_power G x alpha ^ nat c mod ?p) mod ?p
          = (x ^ nat ?r * (x ^ nat ?a) ^ nat c) mod ?p"
    by (simp add: group_power_def mod_mult_eq power_mod)
  also have "\<dots> = x ^ (nat ?r + nat ?a * nat c) mod ?p"
    by (simp add: power_add power_mult)
  also have "\<dots> = x ^ nat w mod ?p"
  proof (rule power_cong_order [OF ord])
    have r0: "0 \<le> ?r" and a0: "0 \<le> ?a"
      using q by simp_all
    have "int ((nat ?r + nat ?a * nat c) mod nat ?q) = (?r + ?a * c) mod ?q"
      using r0 a0 c q by (simp add: zmod_int)
    also have "\<dots> = (w - alpha * c + alpha * c) mod ?q"
    proof -
      have "?r mod ?q = (w - alpha * c) mod ?q" by simp
      moreover have "?a * c mod ?q = alpha * c mod ?q"
        by (simp add: mod_mult_left_eq)
      ultimately show ?thesis by (rule mod_add_cong)
    qed
    also have "\<dots> = int (nat w mod nat ?q)"
      using w q by (simp add: zmod_int)
    finally show "(nat ?r + nat ?a * nat c) mod nat ?q = nat w mod nat ?q"
      by simp
  qed
  finally show ?thesis .
qed

text \<open>
  Claim C4. Completeness of the Chaum-Pedersen protocol: in a group with modulus \<open>p\<close> and
  order \<open>q\<close>, for elements \<open>g_1\<close>, \<open>g_2\<close> of the subgroup of order \<open>q\<close>, every secret
  \<open>alpha\<close> and every sampled \<open>w\<close> with \<open>0 \<le> w < q\<close>, \<^verbatim>\<open>proof_dleq\<close> on
  \<open>(g_1, g_1^alpha, g_2, g_2^alpha, alpha)\<close> returns a transcript, and \<^verbatim>\<open>verify_dleq\<close> returns
  \<^verbatim>\<open>True\<close> on it with the same public inputs.
\<close>

theorem dleq_completeness:
  assumes G: "valid_group G" and g1: "is_element G g_1" and g2: "is_element G g_2"
    and w: "0 \<le> w" "w < grp_q G"
    and h1: "powmod G g_1 alpha = Inr h_1" and h2: "powmod G g_2 alpha = Inr h_2"
  shows "\<exists>prf. proof_dleq G g_1 h_1 g_2 h_2 alpha w = Inr prf
               \<and> verify_dleq G prf g_1 h_1 g_2 h_2 = Inr True"
proof -
  let ?p = "grp_p G" and ?q = "grp_q G"
  from G have p: "?p \<noteq> 0" and q: "?q \<noteq> 0"
    by (simp_all add: valid_group_def)
  let ?ta = "g_1 ^ nat w mod ?p" and ?tb = "g_2 ^ nat w mod ?p"
  obtain c where c: "hashfunc G [h_1, h_2, ?ta, ?tb] = Inr c" and c0: "0 \<le> c"
    using hashfunc_range [OF G] by blast
  let ?res = "(w - alpha * c) mod ?q"
  have t1: "powmod G g_1 w = Inr ?ta" and t2: "powmod G g_2 w = Inr ?tb"
    using p w by (simp_all add: powmod_nonneg)
  have made: "proof_dleq G g_1 h_1 g_2 h_2 alpha w = Inr (?ta, ?tb, ?res)"
    using q by (simp add: proof_dleq_def t1 t2 c pymod_Inr)
  have e1: "h_1 = group_power G g_1 alpha" and e2: "h_2 = group_power G g_2 alpha"
    using h1 h2 powmod_element [OF G g1, of alpha] powmod_element [OF G g2, of alpha] by simp_all
  have v1: "group_power G g_1 ?res * (h_1 ^ nat c mod ?p) mod ?p = ?ta"
    unfolding e1 by (rule dleq_equation [OF G g1 c0 w(1)])
  have v2: "group_power G g_2 ?res * (h_2 ^ nat c mod ?p) mod ?p = ?tb"
    unfolding e2 by (rule dleq_equation [OF G g2 c0 w(1)])
  have "verify_dleq G (?ta, ?tb, ?res) g_1 h_1 g_2 h_2 = Inr True"
    using p c0
    by (simp add: verify_dleq_def c powmod_element [OF G g1] powmod_element [OF G g2]
        powmod_nonneg pymod_Inr v1 v2)
  with made show ?thesis by blast
qed

theorem dleq_completeness_witness:
  "\<exists>prf. proof_dleq \<lparr>grp_p = 23, grp_q = 11\<rparr> 4 18 2 8 3 5 = Inr prf
         \<and> verify_dleq \<lparr>grp_p = 23, grp_q = 11\<rparr> prf 4 18 2 8 = Inr True"
  using dleq_completeness
    [where G = "\<lparr>grp_p = 23, grp_q = 11\<rparr>" and ?g_1.0 = 4 and ?g_2.0 = 2 and alpha = 3 and w = 5
       and ?h_1.0 = 18 and ?h_2.0 = 8]
  by (simp add: valid_group_def is_element_def powmod_def)

section \<open>Claims about the verifiers\<close>

text \<open>
  Claim C7, as amended. For a group and bases \<open>g_1\<close>, \<open>g_2\<close> that are elements of it,
  \<^verbatim>\<open>verify_dleq\<close> raises no exception, and with \<open>c\<close> the scalar challenge of
  \<open>[h_1, h_2, t_1, t_2]\<close> it returns \<^verbatim>\<open>True\<close> if and only if \<open>t_1\<close> is equal to the
  residue \<open>g_1^res \<cdot> h_1^c mod p\<close> and \<open>t_2\<close> to the residue \<open>g_2^res \<cdot> h_2^c mod p\<close>: the
  congruences hold and \<open>t_1\<close>, \<open>t_2\<close> are the reduced representatives. Otherwise it
  returns \<^verbatim>\<open>False\<close>.
\<close>

theorem verify_dleq_accepts_iff:
  assumes G: "valid_group G" and g1: "is_element G g_1" and g2: "is_element G g_2"
  shows "\<exists>c. hashfunc G [h_1, h_2, t_1, t_2] = Inr c
           \<and> verify_dleq G (t_1, t_2, res) g_1 h_1 g_2 h_2
               = Inr (t_1 = group_power G g_1 res * h_1 ^ nat c mod grp_p G
                      \<and> t_2 = group_power G g_2 res * h_2 ^ nat c mod grp_p G)"
proof -
  from G have p: "grp_p G \<noteq> 0"
    by (simp add: valid_group_def)
  obtain c where c: "hashfunc G [h_1, h_2, t_1, t_2] = Inr c" and c0: "0 \<le> c"
    using hashfunc_range [OF G] by blast
  have "verify_dleq G (t_1, t_2, res) g_1 h_1 g_2 h_2
          = Inr (t_1 = group_power G g_1 res * h_1 ^ nat c mod grp_p G
                 \<and> t_2 = group_power G g_2 res * h_2 ^ nat c mod grp_p G)"
    using p c0
    by (simp add: verify_dleq_def c powmod_element [OF G g1] powmod_element [OF G g2]
        powmod_nonneg pymod_Inr mod_mult_right_eq)
  with c show ?thesis by blast
qed

theorem verify_dleq_accepts_iff_witness:
  "\<exists>c. hashfunc \<lparr>grp_p = 23, grp_q = 11\<rparr> [18, 8, 12, 9] = Inr c
     \<and> verify_dleq \<lparr>grp_p = 23, grp_q = 11\<rparr> (12, 9, 7) 4 18 2 8
         = Inr (12 = group_power \<lparr>grp_p = 23, grp_q = 11\<rparr> 4 7 * 18 ^ nat c mod grp_p \<lparr>grp_p = 23, grp_q = 11\<rparr>
                \<and> 9 = group_power \<lparr>grp_p = 23, grp_q = 11\<rparr> 2 7 * 8 ^ nat c mod grp_p \<lparr>grp_p = 23, grp_q = 11\<rparr>)"
proof -
  have "valid_group \<lparr>grp_p = 23, grp_q = 11\<rparr>"
    by (simp add: valid_group_def)
  moreover have "is_element \<lparr>grp_p = 23, grp_q = 11\<rparr> 4"
    by (simp add: is_element_def)
  moreover have "is_element \<lparr>grp_p = 23, grp_q = 11\<rparr> 2"
    by (simp add: is_element_def)
  ultimately show ?thesis
    by (rule verify_dleq_accepts_iff)
qed

text \<open>
  Claim C7 as stated fails: a commitment that is congruent to the expected value but not
  reduced modulo \<open>p\<close> is rejected. With \<open>p = 23\<close>, \<open>g_1 = 4\<close>, \<open>g_2 = 2\<close>, \<open>h_1 = h_2 = 1\<close> and
  the transcript \<open>(35, 9, 5)\<close> both congruences hold (\<open>4^5 mod 23 = 12 = 35 mod 23\<close> and
  \<open>2^5 mod 23 = 9\<close>), and the verifier returns \<^verbatim>\<open>False\<close>.
\<close>

theorem verify_dleq_unreduced_counterexample:
  "verify_dleq \<lparr>grp_p = 23, grp_q = 11\<rparr> (35, 9, 5) 4 1 2 1 = Inr False
   \<and> 35 mod 23 = (4 ^ 5 * 1 ^ nat (projr (hashfunc \<lparr>grp_p = 23, grp_q = 11\<rparr> [1, 1, 35, 9]))) mod (23::int)
   \<and> 9 mod 23 = (2 ^ 5 * 1 ^ nat (projr (hashfunc \<lparr>grp_p = 23, grp_q = 11\<rparr> [1, 1, 35, 9]))) mod (23::int)"
proof -
  let ?G = "\<lparr>grp_p = 23, grp_q = 11\<rparr>"
  have G: "valid_group ?G"
    by (simp add: valid_group_def)
  obtain c where c: "hashfunc ?G [1, 1, 35, 9] = Inr c" and c0: "0 \<le> c"
    using hashfunc_range [OF G] by blast
  have "verify_dleq ?G (35, 9, 5) 4 1 2 1 = Inr False"
    using c0 by (simp add: verify_dleq_def c powmod_nonneg pymod_Inr)
  then show ?thesis by simp
qed

text \<open>
  Claim C8. \<^verbatim>\<open>verify_plaintext_dlog\<close> accepts a transcript \<open>(t_1, t_2, res1, res2)\<close> for a key
  \<open>(g, y)\<close>, a ciphertext \<open>(a, b)\<close> and a base \<open>h\<close> if and only if, with the scalar challenge
  of \<open>[g, h, y, t_1, t_2, a, b]\<close>, both \<open>h^res1 \<cdot> y^res2 \<equiv> t_1 \<cdot> b^c\<close> and \<open>g^res2 \<equiv> t_2 \<cdot> a^c\<close> hold
  modulo \<open>p\<close>. The key and the base are elements of the group, so that their powers are
  defined for every integer response.
\<close>

theorem verify_plaintext_dlog_accepts_iff:
  assumes G: "valid_group (key_G_q key)"
    and g: "is_element (key_G_q key) (key_g key)"
    and y: "is_element (key_G_q key) (key_y key)"
    and h: "is_element (key_G_q key) h"
  shows "\<exists>challenge.
           hashfunc (key_G_q key) [key_g key, h, key_y key, t_1, t_2, ct_a c, ct_b c] = Inr challenge
           \<and> verify_plaintext_dlog (t_1, t_2, res1, res2) key c h
               = Inr ((group_power (key_G_q key) h res1 * group_power (key_G_q key) (key_y key) res2)
                          mod grp_p (key_G_q key)
                        = (t_1 * ct_b c ^ nat challenge) mod grp_p (key_G_q key)
                      \<and> group_power (key_G_q key) (key_g key) res2 mod grp_p (key_G_q key)
                        = (t_2 * ct_a c ^ nat challenge) mod grp_p (key_G_q key))"
proof -
  let ?G = "key_G_q key"
  from G have p: "grp_p ?G \<noteq> 0"
    by (simp add: valid_group_def)
  obtain ch where ch: "hashfunc ?G [key_g key, h, key_y key, t_1, t_2, ct_a c, ct_b c] = Inr ch"
    and c0: "0 \<le> ch"
    using hashfunc_range [OF G] by blast
  have red: "group_power ?G (key_g key) res2 mod grp_p ?G = group_power ?G (key_g key) res2"
    by (simp add: group_power_def)
  have "verify_plaintext_dlog (t_1, t_2, res1, res2) key c h
          = Inr ((group_power ?G h res1 * group_power ?G (key_y key) res2) mod grp_p ?G
                   = (t_1 * ct_b c ^ nat ch) mod grp_p ?G
                 \<and> group_power ?G (key_g key) res2 mod grp_p ?G
                   = (t_2 * ct_a c ^ nat ch) mod grp_p ?G)"
    using p c0 unfolding red
    by (simp add: verify_plaintext_dlog_def Let_def ch powmod_element [OF G g]
        powmod_element [OF G y] powmod_element [OF G h] powmod_nonneg pymod_Inr mod_mult_right_eq)
  with ch show ?thesis by blast
qed

theorem verify_plaintext_dlog_accepts_iff_witness:
  "\<exists>challenge.
     hashfunc \<lparr>grp_p = 23, grp_q = 11\<rparr> [4, 2, 18, 6, 13, 12, 12] = Inr challenge
     \<and> verify_plaintext_dlog (6, 13, 7, 9)
           \<lparr>key_G_q = \<lparr>grp_p = 23, grp_q = 11\<rparr>, key_g = 4, key_y = 18\<rparr>
           \<lparr>ct_G_q = \<lparr>grp_p = 23, grp_q = 11\<rparr>, ct_a = 12, ct_b = 12\<rparr> 2
         = Inr ((group_power \<lparr>grp_p = 23, grp_q = 11\<rparr> 2 7 * group_power \<lparr>grp_p = 23, grp_q = 11\<rparr> 18 9)
                    mod 23
                  = (6 * 12 ^ nat challenge) mod 23
                \<and> group_power \<lparr>grp_p = 23, grp_q = 11\<rparr> 4 9 mod 23 = (13 * 12 ^ nat challenge) mod 23)"
  using verify_plaintext_dlog_accepts_iff
    [where key = "\<lparr>key_G_q = \<lparr>grp_p = 23, grp_q = 11\<rparr>, key_g = 4, key_y = 18\<rparr>"
       and c = "\<lparr>ct_G_q = \<lparr>grp_p = 23, grp_q = 11\<rparr>, ct_a = 12, ct_b = 12\<rparr>"
       and h = 2 and ?t_1.0 = 6 and ?t_2.0 = 13 and ?res1.0 = 7 and ?res2.0 = 9]
  by (simp add: valid_group_def is_element_def)

lemma group_power_nonneg: "valid_group G \<Longrightarrow> 0 \<le> group_power G x e"
  by (simp add: group_power_def valid_group_def)

lemma recompute_elements:
  assumes Gq: "valid_group G_q" and Gr: "valid_group G_r"
    and h: "is_element G_r h" and y: "is_element G_r y" and A: "is_element G_r A"
  shows "recompute G_q G_r g h y A B rcs =
           Inr (map (\<lambda>(r_i, c_i). (if c_i = 0 then g else B) ^ nat (group_power G_r y r_i)
                                     mod grp_p G_q) rcs,
                map (\<lambda>(r_i, c_i). group_power G_r h r_i * group_power G_r A c_i
                                     mod grp_p G_r) rcs)"
proof (induction rcs)
  case Nil
  show ?case by simp
next
  case (Cons rc rcs)
  obtain r_i c_i where rc: "rc = (r_i, c_i)"
    by (cases rc)
  from Gq Gr have p: "grp_p G_q \<noteq> 0" "grp_p G_r \<noteq> 0"
    by (simp_all add: valid_group_def)
  show ?case
    using p group_power_nonneg [OF Gr, of y r_i]
    by (simp add: rc Cons.IH powmod_element [OF Gr y] powmod_element [OF Gr h]
        powmod_element [OF Gr A] powmod_nonneg pymod_Inr)
qed

lemma verify_dl_equal_ddl_value:
  assumes Gq: "valid_group G_q" and Gr: "valid_group G_r"
    and rel: "grp_p G_q = grp_p G_r * 2 + 1"
    and g: "is_element G_q g" and B: "is_element G_q B"
    and h: "is_element G_r h" and y: "is_element G_r y" and A: "is_element G_r A"
  shows "verify_dl_equal_ddl (c, r) G_q G_r g h y A B =
           Inr (c = hashfunc_bits ([g, h, y, A, B]
                  @ map (\<lambda>(r_i, c_i). (if c_i = 0 then g else B) ^ nat (group_power G_r y r_i)
                                         mod grp_p G_q) (zip r c)
                  @ map (\<lambda>(r_i, c_i). group_power G_r h r_i * group_power G_r A c_i
                                         mod grp_p G_r) (zip r c)))"
  using rel g B h y A
  by (simp add: verify_dl_equal_ddl_def recompute_elements [OF Gq Gr h y A] Let_def)

lemma length_hashfunc_bits: "length (hashfunc_bits vs) = 256"
  by (simp add: hashfunc_bits_def length_bits_from_bytes length_sha256)

text \<open>
  Claim C9, as amended. Under the asserted preconditions \<^verbatim>\<open>verify_dl_equal_ddl\<close> recomputes,
  for each paired response \<open>r_i\<close> and bit \<open>c_i\<close>, the commitment
  \<open>t_g_i = (g if c_i = 0 else B)\<close> to the power \<open>y^r_i\<close> \<^emph>\<open>reduced modulo the modulus of the inner
  group\<close> (not modulo its order \<open>r\<close>), modulo \<open>p\<close>, and \<open>t_h_i = h^r_i \<cdot> A^c_i\<close> modulo the modulus
  of the inner group; it hashes \<open>[g, h, y, A, B]\<close> followed by all \<open>t_g\<close> and then all \<open>t_h\<close>
  to 256 bits, and accepts if and only if this bit vector is equal to the supplied
  challenge list.
\<close>

theorem verify_dl_equal_ddl_recomputes:
  assumes "valid_group G_q" and "valid_group G_r"
    and "grp_p G_q = grp_p G_r * 2 + 1"
    and "is_element G_q g" and "is_element G_q B"
    and "is_element G_r h" and "is_element G_r y" and "is_element G_r A"
  shows "verify_dl_equal_ddl (c, r) G_q G_r g h y A B =
           Inr (c = hashfunc_bits ([g, h, y, A, B]
                  @ map (\<lambda>(r_i, c_i). (if c_i = 0 then g else B) ^ nat (group_power G_r y r_i)
                                         mod grp_p G_q) (zip r c)
                  @ map (\<lambda>(r_i, c_i). group_power G_r h r_i * group_power G_r A c_i
                                         mod grp_p G_r) (zip r c)))"
  using assms by (rule verify_dl_equal_ddl_value)

theorem verify_dl_equal_ddl_recomputes_witness:
  "verify_dl_equal_ddl ([0, 1], [2, 4]) \<lparr>grp_p = 23, grp_q = 11\<rparr> \<lparr>grp_p = 11, grp_q = 5\<rparr> 4 4 3 5 13 =
     Inr ([0, 1] = hashfunc_bits ([4, 4, 3, 5, 13]
            @ map (\<lambda>(r_i, c_i). (if c_i = 0 then 4 else 13)
                      ^ nat (group_power \<lparr>grp_p = 11, grp_q = 5\<rparr> 3 r_i)
                    mod grp_p \<lparr>grp_p = 23, grp_q = 11\<rparr>) (zip [2, 4] [0, 1 :: int])
            @ map (\<lambda>(r_i, c_i). group_power \<lparr>grp_p = 11, grp_q = 5\<rparr> 4 r_i
                      * group_power \<lparr>grp_p = 11, grp_q = 5\<rparr> 5 c_i
                    mod grp_p \<lparr>grp_p = 11, grp_q = 5\<rparr>) (zip [2, 4] [0, 1 :: int])))"
  using verify_dl_equal_ddl_recomputes
    [where G_q = "\<lparr>grp_p = 23, grp_q = 11\<rparr>" and G_r = "\<lparr>grp_p = 11, grp_q = 5\<rparr>"
       and g = 4 and B = 13 and h = 4 and y = 3 and A = 5 and c = "[0, 1]" and r = "[2, 4]"]
  by (simp add: valid_group_def is_element_def)

text \<open>
  Claim C9 as stated fails: with the outer group \<open>p = 23\<close>, \<open>q = 11\<close>, the inner group of
  modulus 11 and order \<open>r = 5\<close>, \<open>g = 4\<close>, \<open>y = 3\<close> and the response \<open>r_i = 2\<close> with bit 0, the
  code computes \<open>4\<close> to the power \<open>3^2 mod 11 = 9\<close>, which is 13 modulo 23, whereas the exponent
  \<open>3^2 mod r = 4\<close> of the claim gives 3.
\<close>

theorem recompute_inner_modulus_counterexample:
  "recompute \<lparr>grp_p = 23, grp_q = 11\<rparr> \<lparr>grp_p = 11, grp_q = 5\<rparr> 4 4 3 5 13 [(2, 0)] = Inr ([13], [5])
   \<and> (4::int) ^ nat (3 ^ 2 mod 5) mod 23 \<noteq> 13"
  by (simp add: powmod_def pymod_def)

text \<open>
  Claim C10. For a transcript \<open>(c, r)\<close> whose challenge list \<open>c\<close> does not have exactly 256
  entries, and public inputs that satisfy the asserted preconditions,
  \<^verbatim>\<open>verify_dl_equal_ddl\<close> returns \<^verbatim>\<open>False\<close>: the recomputed challenge has 256 entries, and
  the paired iteration over \<open>r\<close> and \<open>c\<close> stops with the shorter list without rejecting.
\<close>

theorem verify_dl_equal_ddl_wrong_length:
  assumes "valid_group G_q" and "valid_group G_r"
    and "grp_p G_q = grp_p G_r * 2 + 1"
    and "is_element G_q g" and "is_element G_q B"
    and "is_element G_r h" and "is_element G_r y" and "is_element G_r A"
    and "length c \<noteq> 256"
  shows "verify_dl_equal_ddl (c, r) G_q G_r g h y A B = Inr False"
proof -
  let ?c_new = "hashfunc_bits ([g, h, y, A, B]
                  @ map (\<lambda>(r_i, c_i). (if c_i = 0 then g else B) ^ nat (group_power G_r y r_i)
                                         mod grp_p G_q) (zip r c)
                  @ map (\<lambda>(r_i, c_i). group_power G_r h r_i * group_power G_r A c_i
                                         mod grp_p G_r) (zip r c))"
  have "length ?c_new = 256"
    by (rule length_hashfunc_bits)
  with assms(9) have "c \<noteq> ?c_new"
    by auto
  then show ?thesis
    using verify_dl_equal_ddl_value [OF assms(1-8), of c r] by simp
qed

theorem verify_dl_equal_ddl_wrong_length_witness:
  "verify_dl_equal_ddl ([0, 1], [2, 4, 1]) \<lparr>grp_p = 23, grp_q = 11\<rparr> \<lparr>grp_p = 11, grp_q = 5\<rparr> 4 4 3 5 13
     = Inr False"
  using verify_dl_equal_ddl_wrong_length
    [where G_q = "\<lparr>grp_p = 23, grp_q = 11\<rparr>" and G_r = "\<lparr>grp_p = 11, grp_q = 5\<rparr>"
       and g = 4 and B = 13 and h = 4 and y = 3 and A = 5 and c = "[0, 1]" and r = "[2, 4, 1]"]
  by (simp add: valid_group_def is_element_def)

section \<open>Claims about the disjunctive proof\<close>

lemma powmod_unit:
  assumes "1 < grp_p G" and "x * y mod grp_p G = 1"
  obtains v where "powmod G x e = Inr v"
proof (cases "0 \<le> e")
  case True
  with assms(1) show ?thesis
    by (intro that) (simp add: powmod_def)
next
  case False
  obtain z where "mod_inverse x (grp_p G) = Some z"
    using mod_inverse_Some [OF assms] by blast
  with False assms(1) show ?thesis
    by (intro that) (simp add: powmod_def)
qed

lemma powmod_inverse:
  assumes G: "valid_group G" and x: "is_element G x"
  obtains z where "powmod G x (- 1) = Inr z" and "z * x mod grp_p G = 1"
proof -
  from G have p: "1 < grp_p G"
    by (simp add: valid_group_def)
  obtain z where z: "mod_inverse x (grp_p G) = Some z" and xz: "x * z mod grp_p G = 1"
    using mod_inverse_Some [OF p element_inverse [OF G x]] by blast
  have "powmod G x (- 1) = Inr (z mod grp_p G)"
    using p z by (simp add: powmod_def)
  moreover have "(z mod grp_p G) * x mod grp_p G = 1"
  proof -
    have "(z mod grp_p G) * x mod grp_p G = z * x mod grp_p G"
      by (rule mod_mult_left_eq)
    also have "\<dots> = x * z mod grp_p G"
      by (simp only: mult.commute)
    finally show ?thesis
      using xz by simp
  qed
  ultimately show ?thesis by (rule that)
qed

lemma unit_mult:
  fixes p :: int
  assumes "1 < p" and "x * y mod p = 1" and "x' * y' mod p = 1"
  shows "(x * x') * (y * y') mod p = 1"
proof -
  have "(x * x') * (y * y') = (x * y) * (x' * y')"
    by (simp add: mult_ac)
  then have "(x * x') * (y * y') mod p = (x * y) * (x' * y') mod p"
    by (rule arg_cong)
  also have "\<dots> = ((x * y mod p) * (x' * y' mod p)) mod p"
    by (rule mod_mult_eq [symmetric])
  also have "\<dots> = 1"
    using assms by simp
  finally show ?thesis .
qed

lemma check_all_total:
  assumes G: "valid_group (key_G_q key)"
    and g: "is_element (key_G_q key) (key_g key)" and y: "is_element (key_G_q key) (key_y key)"
    and a: "a_inv * ua mod grp_p (key_G_q key) = 1" and b: "b_inv * ub mod grp_p (key_G_q key) = 1"
    and zs: "\<forall>z \<in> set zs. is_element (key_G_q key) (ct_a (snd (snd (snd z))))
                         \<and> is_element (key_G_q key) (ct_b (snd (snd (snd z))))"
  shows "\<exists>b1 b2. check_all key a_inv b_inv zs = Inr (b1, b2)"
  using zs
proof (induction zs)
  case Nil
  show ?case by simp
next
  case (Cons z zs)
  let ?G = "key_G_q key"
  obtain ti1 ti2 res_i challenge_i c_prime_i where z: "z = ((ti1, ti2), res_i, challenge_i, c_prime_i)"
    by (metis prod.collapse)
  from G have p: "1 < grp_p ?G"
    by (simp add: valid_group_def)
  from Cons.prems z have ea: "is_element ?G (ct_a c_prime_i)" and eb: "is_element ?G (ct_b c_prime_i)"
    by simp_all
  have "(ct_a c_prime_i * a_inv) * (ct_a c_prime_i ^ (nat (grp_q ?G) - 1) * ua) mod grp_p ?G = 1"
    by (rule unit_mult [OF p element_inverse [OF G ea] a])
  then obtain x2 where x2: "powmod ?G (ct_a c_prime_i * a_inv) challenge_i = Inr x2"
    using powmod_unit [OF p] by blast
  have "(ct_b c_prime_i * b_inv) * (ct_b c_prime_i ^ (nat (grp_q ?G) - 1) * ub) mod grp_p ?G = 1"
    by (rule unit_mult [OF p element_inverse [OF G eb] b])
  then obtain x4 where x4: "powmod ?G (ct_b c_prime_i * b_inv) challenge_i = Inr x4"
    using powmod_unit [OF p] by blast
  from Cons obtain b1 b2 where "check_all key a_inv b_inv zs = Inr (b1, b2)"
    by auto
  then show ?case
    using p
    by (simp add: z Let_def powmod_element [OF G g] powmod_element [OF G y] x2 x4 pymod_Inr)
qed

lemma verify_plaintext_equality_or_total:
  assumes G: "valid_group (key_G_q key)"
    and g: "is_element (key_G_q key) (key_g key)" and y: "is_element (key_G_q key) (key_y key)"
    and a: "is_element (key_G_q key) (ct_a c)" and b: "is_element (key_G_q key) (ct_b c)"
    and cs: "\<forall>c' \<in> set c_prime. is_element (key_G_q key) (ct_a c')
                                 \<and> is_element (key_G_q key) (ct_b c')"
    and len: "length challenges = length res" "length res = length t" "length t = length c_prime"
  shows "\<exists>b. verify_plaintext_equality_or (t, res, challenges) key c c_prime = Inr b"
proof -
  let ?G = "key_G_q key"
  from G have p: "grp_p ?G \<noteq> 0"
    by (simp add: valid_group_def)
  obtain m where m: "master_challenge ?G c c_prime (map fst t) (map snd t) = Inr m"
    unfolding master_challenge_def using hashfunc_range [OF G] by blast
  obtain a_inv where ai: "powmod ?G (ct_a c) (- 1) = Inr a_inv"
    and au: "a_inv * ct_a c mod grp_p ?G = 1"
    using powmod_inverse [OF G a] by blast
  obtain b_inv where bi: "powmod ?G (ct_b c) (- 1) = Inr b_inv"
    and bu: "b_inv * ct_b c mod grp_p ?G = 1"
    using powmod_inverse [OF G b] by blast
  have "\<forall>z \<in> set (zip t (zip res (zip challenges c_prime))).
          is_element ?G (ct_a (snd (snd (snd z)))) \<and> is_element ?G (ct_b (snd (snd (snd z))))"
  proof
    fix z assume "z \<in> set (zip t (zip res (zip challenges c_prime)))"
    then have "snd (snd (snd z)) \<in> set c_prime"
      by (metis in_set_zipE prod.collapse)
    with cs show "is_element ?G (ct_a (snd (snd (snd z)))) \<and> is_element ?G (ct_b (snd (snd (snd z))))"
      by blast
  qed
  then obtain b1 b2 where
    "check_all key a_inv b_inv (zip t (zip res (zip challenges c_prime))) = Inr (b1, b2)"
    using check_all_total [OF G g y au bu] by blast
  then show ?thesis
    using p len by (simp add: verify_plaintext_equality_or_def m ai bi pymod_Inr)
qed


lemma powmod_order:
  assumes G: "valid_group G" and ord: "x ^ nat (grp_q G) mod grp_p G = 1"
  shows "powmod G x e = Inr (group_power G x e)"
proof (cases "0 \<le> e")
  case True
  have "nat e mod nat (grp_q G) = nat (e mod grp_q G)"
    using True G by (simp add: valid_group_def nat_mod_distrib)
  then have "x ^ nat e mod grp_p G = x ^ nat (e mod grp_q G) mod grp_p G"
    using power_mod_order [OF ord, of "nat e"] by simp
  with True G show ?thesis
    by (simp add: powmod_def group_power_def valid_group_def)
next
  case False
  let ?p = "grp_p G" and ?n = "nat (grp_q G)"
  from G have p: "1 < ?p" and q: "0 < grp_q G"
    by (simp_all add: valid_group_def)
  from q have "x * x ^ (?n - 1) = x ^ ?n"
    by (cases ?n) simp_all
  with ord have "x * x ^ (?n - 1) mod ?p = 1"
    by simp
  then obtain z where z: "mod_inverse x ?p = Some z" and xz: "x * z mod ?p = 1"
    using mod_inverse_Some [OF p] by blast
  let ?k = "nat (- e)" and ?r = "nat (e mod grp_q G)"
  have "(?k + ?r) mod ?n = 0"
  proof -
    have "int (?k + ?r) = - e + e mod grp_q G"
      using False q by simp
    also have "\<dots> = - (e - e mod grp_q G)"
      by simp
    also have "\<dots> = - (grp_q G * (e div grp_q G))"
      by (simp only: minus_mod_eq_mult_div)
    finally have "int (?k + ?r) mod grp_q G = 0"
      by simp
    then have "int ((?k + ?r) mod ?n) = 0"
      using q by (simp add: zmod_int)
    then show ?thesis by simp
  qed
  then have one: "x ^ (?k + ?r) mod ?p = 1"
    using power_mod_order [OF ord, of "?k + ?r"] p by simp
  have "(x * z) ^ ?k mod ?p = (x * z mod ?p) ^ ?k mod ?p"
    by (simp only: power_mod)
  then have "(x * z) ^ ?k mod ?p = 1"
    using xz p by simp
  then have xzk: "(x ^ ?k * z ^ ?k) mod ?p = 1"
    by (simp add: power_mult_distrib)
  have "z ^ ?k mod ?p = (z ^ ?k * (x ^ (?k + ?r) mod ?p)) mod ?p"
    using one by simp
  also have "\<dots> = ((x ^ ?k * z ^ ?k) * x ^ ?r) mod ?p"
    by (simp add: mod_mult_right_eq power_add mult_ac)
  also have "\<dots> = ((x ^ ?k * z ^ ?k) mod ?p * x ^ ?r) mod ?p"
    by (simp add: mod_mult_left_eq)
  also have "\<dots> = x ^ ?r mod ?p"
    using xzk by simp
  finally show ?thesis
    using False p z by (simp add: powmod_def group_power_def)
qed

lemma order_mult:
  fixes p :: int
  assumes "1 < p" and "x ^ n mod p = 1" and "y ^ n mod p = 1"
  shows "(x * y) ^ n mod p = 1"
proof -
  have "(x * y) ^ n mod p = ((x ^ n mod p) * (y ^ n mod p)) mod p"
    by (simp only: power_mult_distrib mod_mult_eq)
  with assms show ?thesis by simp
qed

lemma group_power_order:
  assumes G: "valid_group G" and ord: "x ^ nat (grp_q G) mod grp_p G = 1"
  shows "group_power G x e ^ nat (grp_q G) mod grp_p G = 1"
proof -
  let ?p = "grp_p G" and ?n = "nat (grp_q G)" and ?k = "nat (e mod grp_q G)"
  from G have p: "1 < ?p"
    by (simp add: valid_group_def)
  have "group_power G x e ^ ?n mod ?p = (x ^ ?k) ^ ?n mod ?p"
    by (simp only: group_power_def power_mod)
  also have "\<dots> = (x ^ ?n) ^ ?k mod ?p"
    by (simp only: power_mult [symmetric] mult.commute)
  also have "\<dots> = (x ^ ?n mod ?p) ^ ?k mod ?p"
    by (simp only: power_mod)
  also have "\<dots> = 1"
    using ord p by simp
  finally show ?thesis .
qed

lemma element_order: "is_element G x \<Longrightarrow> x ^ nat (grp_q G) mod grp_p G = 1"
  by (simp add: is_element_def)

lemma check_all_value:
  assumes G: "valid_group (key_G_q key)"
    and g: "is_element (key_G_q key) (key_g key)" and y: "is_element (key_G_q key) (key_y key)"
    and a: "a_inv ^ nat (grp_q (key_G_q key)) mod grp_p (key_G_q key) = 1"
    and b: "b_inv ^ nat (grp_q (key_G_q key)) mod grp_p (key_G_q key) = 1"
  shows "\<forall>z \<in> set zs. is_element (key_G_q key) (ct_a (snd (snd (snd z))))
                       \<and> is_element (key_G_q key) (ct_b (snd (snd (snd z)))) \<Longrightarrow>
     check_all key a_inv b_inv zs =
       Inr (map (\<lambda>((ti1, ti2), res_i, challenge_i, c_prime_i).
                   ti1 = group_power (key_G_q key) (key_g key) res_i
                         * group_power (key_G_q key) (ct_a c_prime_i * a_inv) challenge_i
                         mod grp_p (key_G_q key)) zs,
            map (\<lambda>((ti1, ti2), res_i, challenge_i, c_prime_i).
                   ti2 = group_power (key_G_q key) (key_y key) res_i
                         * group_power (key_G_q key) (ct_b c_prime_i * b_inv) challenge_i
                         mod grp_p (key_G_q key)) zs)"
proof (induction zs)
  case Nil
  show ?case by simp
next
  case (Cons z zs)
  let ?G = "key_G_q key"
  obtain ti1 ti2 res_i challenge_i c_prime_i where z: "z = ((ti1, ti2), res_i, challenge_i, c_prime_i)"
    by (metis prod.collapse)
  from G have p: "1 < grp_p ?G" and p0: "grp_p ?G \<noteq> 0"
    by (simp_all add: valid_group_def)
  from Cons.prems z have ea: "is_element ?G (ct_a c_prime_i)" and eb: "is_element ?G (ct_b c_prime_i)"
    by simp_all
  have x2: "powmod ?G (ct_a c_prime_i * a_inv) challenge_i
              = Inr (group_power ?G (ct_a c_prime_i * a_inv) challenge_i)"
    by (rule powmod_order [OF G order_mult [OF p element_order [OF ea] a]])
  have x4: "powmod ?G (ct_b c_prime_i * b_inv) challenge_i
              = Inr (group_power ?G (ct_b c_prime_i * b_inv) challenge_i)"
    by (rule powmod_order [OF G order_mult [OF p element_order [OF eb] b]])
  from Cons have IH: "check_all key a_inv b_inv zs =
       Inr (map (\<lambda>((ti1, ti2), res_i, challenge_i, c_prime_i).
                   ti1 = group_power ?G (key_g key) res_i
                         * group_power ?G (ct_a c_prime_i * a_inv) challenge_i mod grp_p ?G) zs,
            map (\<lambda>((ti1, ti2), res_i, challenge_i, c_prime_i).
                   ti2 = group_power ?G (key_y key) res_i
                         * group_power ?G (ct_b c_prime_i * b_inv) challenge_i mod grp_p ?G) zs)"
    by simp
  show ?case
    using p0
    by (simp add: z Let_def powmod_element [OF G g] powmod_element [OF G y] x2 x4 pymod_Inr IH)
qed

lemma list_all_two_maps:
  "(list_all id (map f zs) \<and> list_all id (map g zs)) = list_all (\<lambda>z. f z \<and> g z) zs"
  by (induction zs) auto

lemma verify_plaintext_equality_or_value:
  assumes G: "valid_group (key_G_q key)"
    and g: "is_element (key_G_q key) (key_g key)" and y: "is_element (key_G_q key) (key_y key)"
    and a: "is_element (key_G_q key) (ct_a c)" and b: "is_element (key_G_q key) (ct_b c)"
    and cs: "\<forall>c' \<in> set c_prime. is_element (key_G_q key) (ct_a c')
                                 \<and> is_element (key_G_q key) (ct_b c')"
    and len: "length challenges = length res" "length res = length t" "length t = length c_prime"
  shows "\<exists>m. master_challenge (key_G_q key) c c_prime (map fst t) (map snd t) = Inr m
           \<and> verify_plaintext_equality_or (t, res, challenges) key c c_prime =
               Inr (m = sum_list challenges mod grp_p (key_G_q key)
                    \<and> list_all (\<lambda>((ti1, ti2), res_i, challenge_i, c_prime_i).
                          ti1 = group_power (key_G_q key) (key_g key) res_i
                                * group_power (key_G_q key)
                                    (ct_a c_prime_i * group_power (key_G_q key) (ct_a c) (- 1))
                                    challenge_i
                                mod grp_p (key_G_q key)
                          \<and> ti2 = group_power (key_G_q key) (key_y key) res_i
                                * group_power (key_G_q key)
                                    (ct_b c_prime_i * group_power (key_G_q key) (ct_b c) (- 1))
                                    challenge_i
                                mod grp_p (key_G_q key))
                        (zip t (zip res (zip challenges c_prime))))"
proof -
  let ?G = "key_G_q key"
  let ?a_inv = "group_power ?G (ct_a c) (- 1)" and ?b_inv = "group_power ?G (ct_b c) (- 1)"
  from G have p: "grp_p ?G \<noteq> 0"
    by (simp add: valid_group_def)
  obtain m where m: "master_challenge ?G c c_prime (map fst t) (map snd t) = Inr m"
    unfolding master_challenge_def using hashfunc_range [OF G] by blast
  have ai: "powmod ?G (ct_a c) (- 1) = Inr ?a_inv" and bi: "powmod ?G (ct_b c) (- 1) = Inr ?b_inv"
    by (rule powmod_element [OF G a], rule powmod_element [OF G b])
  have oa: "?a_inv ^ nat (grp_q ?G) mod grp_p ?G = 1"
    by (rule group_power_order [OF G element_order [OF a]])
  have ob: "?b_inv ^ nat (grp_q ?G) mod grp_p ?G = 1"
    by (rule group_power_order [OF G element_order [OF b]])
  have "\<forall>z \<in> set (zip t (zip res (zip challenges c_prime))).
          is_element ?G (ct_a (snd (snd (snd z)))) \<and> is_element ?G (ct_b (snd (snd (snd z))))"
  proof
    fix z assume "z \<in> set (zip t (zip res (zip challenges c_prime)))"
    then have "snd (snd (snd z)) \<in> set c_prime"
      by (metis in_set_zipE prod.collapse)
    with cs show "is_element ?G (ct_a (snd (snd (snd z)))) \<and> is_element ?G (ct_b (snd (snd (snd z))))"
      by blast
  qed
  note chk = check_all_value [OF G g y oa ob this]
  have "verify_plaintext_equality_or (t, res, challenges) key c c_prime =
               Inr (m = sum_list challenges mod grp_p ?G
                    \<and> list_all (\<lambda>((ti1, ti2), res_i, challenge_i, c_prime_i).
                          ti1 = group_power ?G (key_g key) res_i
                                * group_power ?G (ct_a c_prime_i * ?a_inv) challenge_i mod grp_p ?G
                          \<and> ti2 = group_power ?G (key_y key) res_i
                                * group_power ?G (ct_b c_prime_i * ?b_inv) challenge_i mod grp_p ?G)
                        (zip t (zip res (zip challenges c_prime))))"
    using p len
    by (simp add: verify_plaintext_equality_or_def Let_def m ai bi chk pymod_Inr list_all_two_maps
        case_prod_unfold del: check_all.simps)
  with m show ?thesis by blast
qed







lemma simulate_step:
  assumes p: "grp_p (key_G_q key) \<noteq> 0" and rnd: "\<forall>k. 0 \<le> rnd k"
  shows "simulate key c_prime a_inv b_inv j rnd (i # rest) (t, res, chs, k) =
     (if int i = j then simulate key c_prime a_inv b_inv j rnd rest (t, res, chs, k)
      else simulate key c_prime a_inv b_inv j rnd rest
            (t[i := (Some ((key_g key ^ nat (rnd k) mod grp_p (key_G_q key))
                           * ((ct_a (c_prime ! i) * a_inv) ^ nat (rnd (k + 1)) mod grp_p (key_G_q key))
                           mod grp_p (key_G_q key)),
                     Some ((key_y key ^ nat (rnd k) mod grp_p (key_G_q key))
                           * ((ct_b (c_prime ! i) * b_inv) ^ nat (rnd (k + 1)) mod grp_p (key_G_q key))
                           mod grp_p (key_G_q key)))],
             res[i := Some (rnd k)], chs[i := Some (rnd (k + 1))], k + 2))"
  using p rnd by (simp add: Let_def powmod_nonneg pymod_Inr)

lemma simulate_total:
  assumes p: "grp_p (key_G_q key) \<noteq> 0" and rnd: "\<forall>k. 0 \<le> rnd k"
  shows "length res = length t \<Longrightarrow> length chs = length t \<Longrightarrow>
     \<exists>t' res' chs' k'.
        simulate key c_prime a_inv b_inv j rnd idxs (t, res, chs, k) = Inr (t', res', chs', k')
        \<and> length t' = length t \<and> length res' = length t \<and> length chs' = length t
        \<and> (\<forall>i < length t. (i \<in> set idxs \<and> int i \<noteq> j) \<or> (fst (t ! i) \<noteq> None \<and> snd (t ! i) \<noteq> None)
               \<longrightarrow> fst (t' ! i) \<noteq> None \<and> snd (t' ! i) \<noteq> None)
        \<and> (\<forall>i < length t. (i \<in> set idxs \<and> int i \<noteq> j) \<or> res ! i \<noteq> None \<longrightarrow> res' ! i \<noteq> None)
        \<and> (\<forall>i < length t. (i \<in> set idxs \<and> int i \<noteq> j) \<or> chs ! i \<noteq> None \<longrightarrow> chs' ! i \<noteq> None)"
proof (induction idxs arbitrary: t res chs k)
  case Nil
  then show ?case by simp
next
  case (Cons i idxs)
  show ?case
  proof (cases "int i = j")
    case True
    from Cons.IH [OF Cons.prems, of k] obtain t' res' chs' k' where
      r: "simulate key c_prime a_inv b_inv j rnd idxs (t, res, chs, k) = Inr (t', res', chs', k')"
      and l: "length t' = length t" "length res' = length t" "length chs' = length t"
      and ft: "\<forall>n < length t. (n \<in> set idxs \<and> int n \<noteq> j) \<or> (fst (t ! n) \<noteq> None \<and> snd (t ! n) \<noteq> None)
               \<longrightarrow> fst (t' ! n) \<noteq> None \<and> snd (t' ! n) \<noteq> None"
      and fr: "\<forall>n < length t. (n \<in> set idxs \<and> int n \<noteq> j) \<or> res ! n \<noteq> None \<longrightarrow> res' ! n \<noteq> None"
      and fc: "\<forall>n < length t. (n \<in> set idxs \<and> int n \<noteq> j) \<or> chs ! n \<noteq> None \<longrightarrow> chs' ! n \<noteq> None"
      by blast
    have "simulate key c_prime a_inv b_inv j rnd (i # idxs) (t, res, chs, k)
            = simulate key c_prime a_inv b_inv j rnd idxs (t, res, chs, k)"
      by (subst simulate_step [OF p rnd]) (simp add: True)
    with r have "simulate key c_prime a_inv b_inv j rnd (i # idxs) (t, res, chs, k) = Inr (t', res', chs', k')"
      by simp
    moreover have "\<forall>n < length t. (n \<in> set (i # idxs) \<and> int n \<noteq> j)
               \<or> (fst (t ! n) \<noteq> None \<and> snd (t ! n) \<noteq> None)
               \<longrightarrow> fst (t' ! n) \<noteq> None \<and> snd (t' ! n) \<noteq> None"
      using ft True by auto
    moreover have "\<forall>n < length t. (n \<in> set (i # idxs) \<and> int n \<noteq> j) \<or> res ! n \<noteq> None
               \<longrightarrow> res' ! n \<noteq> None"
      using fr True by auto
    moreover have "\<forall>n < length t. (n \<in> set (i # idxs) \<and> int n \<noteq> j) \<or> chs ! n \<noteq> None
               \<longrightarrow> chs' ! n \<noteq> None"
      using fc True by auto
    ultimately show ?thesis
      using l by blast
  next
    case False
    let ?v = "(Some ((key_g key ^ nat (rnd k) mod grp_p (key_G_q key))
                           * ((ct_a (c_prime ! i) * a_inv) ^ nat (rnd (k + 1)) mod grp_p (key_G_q key))
                           mod grp_p (key_G_q key)),
                     Some ((key_y key ^ nat (rnd k) mod grp_p (key_G_q key))
                           * ((ct_b (c_prime ! i) * b_inv) ^ nat (rnd (k + 1)) mod grp_p (key_G_q key))
                           mod grp_p (key_G_q key)))"
    let ?t = "t[i := ?v]" and ?res = "res[i := Some (rnd k)]" and ?chs = "chs[i := Some (rnd (k + 1))]"
    have len: "length ?res = length ?t" "length ?chs = length ?t"
      using Cons.prems by simp_all
    from Cons.IH [OF len, of "k + 2"] obtain t' res' chs' k' where
      r: "simulate key c_prime a_inv b_inv j rnd idxs (?t, ?res, ?chs, k + 2) = Inr (t', res', chs', k')"
      and l: "length t' = length ?t" "length res' = length ?t" "length chs' = length ?t"
      and ft: "\<forall>n < length ?t. (n \<in> set idxs \<and> int n \<noteq> j) \<or> (fst (?t ! n) \<noteq> None \<and> snd (?t ! n) \<noteq> None)
               \<longrightarrow> fst (t' ! n) \<noteq> None \<and> snd (t' ! n) \<noteq> None"
      and fr: "\<forall>n < length ?t. (n \<in> set idxs \<and> int n \<noteq> j) \<or> ?res ! n \<noteq> None \<longrightarrow> res' ! n \<noteq> None"
      and fc: "\<forall>n < length ?t. (n \<in> set idxs \<and> int n \<noteq> j) \<or> ?chs ! n \<noteq> None \<longrightarrow> chs' ! n \<noteq> None"
      by blast
    have "simulate key c_prime a_inv b_inv j rnd (i # idxs) (t, res, chs, k)
            = simulate key c_prime a_inv b_inv j rnd idxs (?t, ?res, ?chs, k + 2)"
      by (subst simulate_step [OF p rnd]) (simp add: False)
    with r have "simulate key c_prime a_inv b_inv j rnd (i # idxs) (t, res, chs, k) = Inr (t', res', chs', k')"
      by simp
    moreover have "\<forall>n < length t. (n \<in> set (i # idxs) \<and> int n \<noteq> j)
               \<or> (fst (t ! n) \<noteq> None \<and> snd (t ! n) \<noteq> None)
               \<longrightarrow> fst (t' ! n) \<noteq> None \<and> snd (t' ! n) \<noteq> None"
    proof (intro allI impI)
      fix n assume n: "n < length t"
        and h: "(n \<in> set (i # idxs) \<and> int n \<noteq> j) \<or> (fst (t ! n) \<noteq> None \<and> snd (t ! n) \<noteq> None)"
      have "(n \<in> set idxs \<and> int n \<noteq> j) \<or> (fst (?t ! n) \<noteq> None \<and> snd (?t ! n) \<noteq> None)"
        using h n by (cases "n = i") auto
      moreover have "n < length ?t"
        using n by simp
      ultimately show "fst (t' ! n) \<noteq> None \<and> snd (t' ! n) \<noteq> None"
        using ft by blast
    qed
    moreover have "\<forall>n < length t. (n \<in> set (i # idxs) \<and> int n \<noteq> j) \<or> res ! n \<noteq> None
               \<longrightarrow> res' ! n \<noteq> None"
    proof (intro allI impI)
      fix n assume n: "n < length t"
        and h: "(n \<in> set (i # idxs) \<and> int n \<noteq> j) \<or> res ! n \<noteq> None"
      have "(n \<in> set idxs \<and> int n \<noteq> j) \<or> ?res ! n \<noteq> None"
        using h n Cons.prems by (cases "n = i") auto
      moreover have "n < length ?t"
        using n by simp
      ultimately show "res' ! n \<noteq> None"
        using fr by blast
    qed
    moreover have "\<forall>n < length t. (n \<in> set (i # idxs) \<and> int n \<noteq> j) \<or> chs ! n \<noteq> None
               \<longrightarrow> chs' ! n \<noteq> None"
    proof (intro allI impI)
      fix n assume n: "n < length t"
        and h: "(n \<in> set (i # idxs) \<and> int n \<noteq> j) \<or> chs ! n \<noteq> None"
      have "(n \<in> set idxs \<and> int n \<noteq> j) \<or> ?chs ! n \<noteq> None"
        using h n Cons.prems by (cases "n = i") auto
      moreover have "n < length ?t"
        using n by simp
      ultimately show "chs' ! n \<noteq> None"
        using fc by blast
    qed
    ultimately show ?thesis
      using l by simp
  qed
qed

lemma the_values_total:
  "\<forall>x \<in> set xs. x \<noteq> None \<Longrightarrow> \<exists>vs. the_values xs = Inr vs"
proof (induction xs)
  case Nil
  show ?case by simp
next
  case (Cons x xs)
  then obtain v vs where "x = Some v" and "the_values xs = Inr vs"
    by auto
  then show ?case by simp
qed

lemma sum_values_total:
  "\<forall>x \<in> set xs. x \<noteq> None \<Longrightarrow> \<exists>s. sum_values xs = Inr s"
proof (induction xs)
  case Nil
  show ?case by simp
next
  case (Cons x xs)
  then obtain v s where "x = Some v" and "sum_values xs = Inr s"
    by auto
  then show ?case by simp
qed

lemma list_set_in_range:
  "- int (length xs) \<le> i \<Longrightarrow> i < int (length xs) \<Longrightarrow>
     list_set xs i v = Inr (xs[nat (if i < 0 then int (length xs) + i else i) := v])"
  by (simp add: list_set_def Let_def)

lemma list_set_out_of_range:
  "\<not> (- int (length xs) \<le> i \<and> i < int (length xs)) \<Longrightarrow> list_set xs i v = Inl IndexError"
  by (auto simp add: list_set_def Let_def)

lemma proof_plaintext_equality_or_result:
  assumes G: "valid_group (key_G_q key)"
    and a: "is_element (key_G_q key) (ct_a c)" and b: "is_element (key_G_q key) (ct_b c)"
    and rnd: "\<forall>k. 0 \<le> rnd k"
    and j: "- int (length c_prime) \<le> j" "j < int (length c_prime)"
  shows "\<exists>t res chs t1s t2s m s.
           proof_plaintext_equality_or key c r c_prime j r_j rnd =
             Inr (t,
                  res[nat (if j < 0 then int (length c_prime) + j else j) :=
                        Some ((rnd 0 - (r_j - r) * ((m - s) mod grp_p (key_G_q key)))
                                mod order (key_G_q key))],
                  chs[nat (if j < 0 then int (length c_prime) + j else j) :=
                        Some ((m - s) mod grp_p (key_G_q key))])
           \<and> the_values (map fst t) = Inr t1s \<and> the_values (map snd t) = Inr t2s
           \<and> master_challenge (key_G_q key) c c_prime t1s t2s = Inr m
           \<and> sum_values (map (\<lambda>i. chs ! i) (filter (\<lambda>i. int i \<noteq> j) [0..<length chs])) = Inr s
           \<and> length chs = length c_prime"
proof -
  let ?G = "key_G_q key" and ?n = "length c_prime"
  let ?kj = "nat (if j < 0 then int ?n + j else j)"
  let ?t0 = "map (\<lambda>_. (None, None)) c_prime :: (int option \<times> int option) list"
  let ?res0 = "map (\<lambda>_. None) c_prime :: int option list"
  let ?u1 = "key_g key ^ nat (rnd 0) mod grp_p ?G" and ?u2 = "key_y key ^ nat (rnd 0) mod grp_p ?G"
  let ?ta = "?t0[?kj := (Some ?u1, Some ?u2)]"
  from G have p: "grp_p ?G \<noteq> 0" and q: "order ?G \<noteq> 0"
    by (simp_all add: valid_group_def order_def)
  have kj: "?kj < ?n"
    using j by auto
  have u: "powmod ?G (key_g key) (rnd 0) = Inr ?u1" "powmod ?G (key_y key) (rnd 0) = Inr ?u2"
    using p rnd by (simp_all add: powmod_nonneg)
  have ls: "list_set ?t0 j (Some ?u1, Some ?u2) = Inr ?ta"
    using j by (simp add: list_set_in_range)
  obtain a_inv where ai: "powmod ?G (ct_a c) (- 1) = Inr a_inv"
    using powmod_inverse [OF G a] by blast
  obtain b_inv where bi: "powmod ?G (ct_b c) (- 1) = Inr b_inv"
    using powmod_inverse [OF G b] by blast
  have len0: "length ?res0 = length ?ta" "length ?res0 = length ?ta"
    by simp_all
  obtain t' res' chs' k' where
    sim: "simulate key c_prime a_inv b_inv j rnd [0..<?n] (?ta, ?res0, ?res0, 1) = Inr (t', res', chs', k')"
    and l: "length t' = length ?ta" "length res' = length ?ta" "length chs' = length ?ta"
    and ft: "\<forall>i < length ?ta. (i \<in> set [0..<?n] \<and> int i \<noteq> j)
               \<or> (fst (?ta ! i) \<noteq> None \<and> snd (?ta ! i) \<noteq> None)
               \<longrightarrow> fst (t' ! i) \<noteq> None \<and> snd (t' ! i) \<noteq> None"
    and fr: "\<forall>i < length ?ta. (i \<in> set [0..<?n] \<and> int i \<noteq> j) \<or> ?res0 ! i \<noteq> None \<longrightarrow> res' ! i \<noteq> None"
    and fc: "\<forall>i < length ?ta. (i \<in> set [0..<?n] \<and> int i \<noteq> j) \<or> ?res0 ! i \<noteq> None \<longrightarrow> chs' ! i \<noteq> None"
    using simulate_total [OF p rnd len0, of c_prime a_inv b_inv j "[0..<?n]" 1] by blast
  have ln: "length t' = ?n" "length res' = ?n" "length chs' = ?n"
    using l by simp_all
  have filled: "fst (t' ! i) \<noteq> None \<and> snd (t' ! i) \<noteq> None" if i: "i < ?n" for i
  proof (cases "int i = j")
    case True
    then have "?kj = i" by auto
    with i have "?ta ! i = (Some ?u1, Some ?u2)"
      by simp
    then have "fst (?ta ! i) \<noteq> None \<and> snd (?ta ! i) \<noteq> None"
      by simp
    moreover have "i < length ?ta"
      using i by simp
    ultimately show ?thesis
      using ft by blast
  next
    case False
    with i have "i \<in> set [0..<?n] \<and> int i \<noteq> j"
      by simp
    moreover have "i < length ?ta"
      using i by simp
    ultimately show ?thesis
      using ft by blast
  qed
  have "\<forall>x \<in> set (map fst t'). x \<noteq> None"
  proof
    fix x assume "x \<in> set (map fst t')"
    then obtain i where "i < length t'" and "x = fst (t' ! i)"
      by (auto simp add: in_set_conv_nth)
    then show "x \<noteq> None"
      using filled [of i] ln(1) by simp
  qed
  then obtain t1s where t1s: "the_values (map fst t') = Inr t1s"
    using the_values_total by blast
  have "\<forall>x \<in> set (map snd t'). x \<noteq> None"
  proof
    fix x assume "x \<in> set (map snd t')"
    then obtain i where "i < length t'" and "x = snd (t' ! i)"
      by (auto simp add: in_set_conv_nth)
    then show "x \<noteq> None"
      using filled [of i] ln(1) by simp
  qed
  then obtain t2s where t2s: "the_values (map snd t') = Inr t2s"
    using the_values_total by blast
  obtain m where m: "master_challenge ?G c c_prime t1s t2s = Inr m"
    unfolding master_challenge_def using hashfunc_range [OF G] by blast
  have "\<forall>x \<in> set (map (\<lambda>i. chs' ! i) (filter (\<lambda>i. int i \<noteq> j) [0..<length chs'])). x \<noteq> None"
  proof
    fix x assume "x \<in> set (map (\<lambda>i. chs' ! i) (filter (\<lambda>i. int i \<noteq> j) [0..<length chs']))"
    then obtain i where i: "i < ?n" "int i \<noteq> j" and x: "x = chs' ! i"
      using ln(3) by auto
    then have "i \<in> set [0..<?n] \<and> int i \<noteq> j" and "i < length ?ta"
      by simp_all
    then have "chs' ! i \<noteq> None"
      using fc by blast
    with x show "x \<noteq> None" by simp
  qed
  then obtain s where s: "sum_values (map (\<lambda>i. chs' ! i) (filter (\<lambda>i. int i \<noteq> j) [0..<length chs'])) = Inr s"
    using sum_values_total by blast
  have lc: "list_set chs' j v = Inr (chs'[?kj := v])" for v
    using j ln(3) by (simp add: list_set_in_range)
  have lr: "list_set res' j v = Inr (res'[?kj := v])" for v
    using j ln(2) by (simp add: list_set_in_range)
  have pm: "pymod x (grp_p ?G) = Inr (x mod grp_p ?G)" "pymod x (order ?G) = Inr (x mod order ?G)" for x
    using p q by (simp_all add: pymod_Inr)
  have "proof_plaintext_equality_or key c r c_prime j r_j rnd =
          Inr (t', res'[?kj := Some ((rnd 0 - (r_j - r) * ((m - s) mod grp_p ?G)) mod order ?G)],
               chs'[?kj := Some ((m - s) mod grp_p ?G)])"
    unfolding proof_plaintext_equality_or_def Let_def
    by (simp only: u ls ai bi sim t1s t2s m s lc lr pm bind_e_Inr prod.case)
  with t1s t2s m s ln(3) show ?thesis by blast
qed

lemma proof_plaintext_equality_or_in_range:
  assumes "valid_group (key_G_q key)"
    and "is_element (key_G_q key) (ct_a c)" and "is_element (key_G_q key) (ct_b c)"
    and "\<forall>k. 0 \<le> rnd k"
    and "- int (length c_prime) \<le> j" "j < int (length c_prime)"
  shows "\<exists>tr. proof_plaintext_equality_or key c r c_prime j r_j rnd = Inr tr"
  using proof_plaintext_equality_or_result [OF assms, of r r_j] by blast

lemma proof_plaintext_equality_or_out_of_range:
  assumes G: "valid_group (key_G_q key)" and rnd: "\<forall>k. 0 \<le> rnd k"
    and j: "\<not> (- int (length c_prime) \<le> j \<and> j < int (length c_prime))"
  shows "proof_plaintext_equality_or key c r c_prime j r_j rnd = Inl IndexError"
proof -
  let ?G = "key_G_q key"
  from G have p: "grp_p ?G \<noteq> 0"
    by (simp add: valid_group_def)
  have u: "powmod ?G (key_g key) (rnd 0) = Inr (key_g key ^ nat (rnd 0) mod grp_p ?G)"
    "powmod ?G (key_y key) (rnd 0) = Inr (key_y key ^ nat (rnd 0) mod grp_p ?G)"
    using p rnd by (simp_all add: powmod_nonneg)
  have "list_set (map (\<lambda>_. (None, None)) c_prime) j v = Inl IndexError" for v :: "int option \<times> int option"
    using j by (intro list_set_out_of_range) simp
  then show ?thesis
    unfolding proof_plaintext_equality_or_def Let_def
    by (simp only: u bind_e_Inr bind_e_Inl)
qed

lemma the_values_length: "the_values xs = Inr vs \<Longrightarrow> length vs = length xs"
proof (induction xs arbitrary: vs)
  case Nil
  then show ?case by simp
next
  case (Cons x xs)
  then obtain v where x: "x = Some v" by (cases x) simp_all
  with Cons.prems obtain ws where ws: "the_values xs = Inr ws" and vs: "vs = v # ws"
    by (cases "the_values xs") auto
  with Cons.IH show ?case by simp
qed

lemma the_values_nth: "the_values xs = Inr vs \<Longrightarrow> i < length xs \<Longrightarrow> xs ! i = Some (vs ! i)"
proof (induction xs arbitrary: vs i)
  case Nil
  then show ?case by simp
next
  case (Cons x xs)
  then obtain v where x: "x = Some v" by (cases x) simp_all
  with Cons.prems obtain ws where ws: "the_values xs = Inr ws" and vs: "vs = v # ws"
    by (cases "the_values xs") auto
  show ?case
  proof (cases i)
    case 0
    with x vs show ?thesis by simp
  next
    case (Suc k)
    with Cons.prems have "k < length xs" by simp
    with Cons.IH [OF ws] have "xs ! k = Some (ws ! k)" by simp
    with Suc vs show ?thesis by simp
  qed
qed

lemma the_values_update:
  "the_values xs = Inr vs \<Longrightarrow> the_values (xs[k := Some v]) = Inr (vs[k := v])"
proof (induction xs arbitrary: vs k)
  case Nil
  then show ?case by simp
next
  case (Cons x xs)
  then obtain w where x: "x = Some w" by (cases x) simp_all
  with Cons.prems obtain ws where ws: "the_values xs = Inr ws" and vs: "vs = w # ws"
    by (cases "the_values xs") auto
  show ?case
  proof (cases k)
    case 0
    with x vs ws show ?thesis by simp
  next
    case (Suc n)
    with Cons.IH [OF ws, of n] x vs show ?thesis by simp
  qed
qed

lemma sum_values_the_values: "the_values xs = Inr vs \<Longrightarrow> sum_values xs = Inr (sum_list vs)"
proof (induction xs arbitrary: vs)
  case Nil
  then show ?case by simp
next
  case (Cons x xs)
  then obtain w where x: "x = Some w" by (cases x) simp_all
  with Cons.prems obtain ws where ws: "the_values xs = Inr ws" and vs: "vs = w # ws"
    by (cases "the_values xs") auto
  with Cons.IH [OF ws] x show ?case by simp
qed

lemma sum_list_update_int:
  fixes xs :: "int list"
  shows "k < length xs \<Longrightarrow> sum_list (xs[k := x]) = sum_list xs - xs ! k + x"
proof (induction xs arbitrary: k)
  case Nil
  then show ?case by simp
next
  case (Cons y ys)
  then show ?case by (cases k) simp_all
qed

lemma simulate_unchanged:
  assumes p: "grp_p (key_G_q key) \<noteq> 0" and rnd: "\<forall>k. 0 \<le> rnd k"
  shows "simulate key c_prime a_inv b_inv j rnd idxs (t, res, chs, k) = Inr (t', res', chs', k')
     \<Longrightarrow> i \<notin> set idxs \<Longrightarrow> chs' ! i = chs ! i"
proof (induction idxs arbitrary: t res chs k)
  case Nil
  then show ?case by simp
next
  case (Cons a idxs)
  from Cons.prems(2) have ia: "i \<noteq> a" and ii: "i \<notin> set idxs"
    by simp_all
  show ?case
  proof (cases "int a = j")
    case True
    have "simulate key c_prime a_inv b_inv j rnd (a # idxs) (t, res, chs, k)
            = simulate key c_prime a_inv b_inv j rnd idxs (t, res, chs, k)"
      by (subst simulate_step [OF p rnd]) (simp add: True)
    with Cons.prems(1) have "simulate key c_prime a_inv b_inv j rnd idxs (t, res, chs, k)
            = Inr (t', res', chs', k')"
      by simp
    then show ?thesis
      using ii by (rule Cons.IH)
  next
    case False
    let ?v = "(Some ((key_g key ^ nat (rnd k) mod grp_p (key_G_q key))
                           * ((ct_a (c_prime ! a) * a_inv) ^ nat (rnd (k + 1)) mod grp_p (key_G_q key))
                           mod grp_p (key_G_q key)),
                     Some ((key_y key ^ nat (rnd k) mod grp_p (key_G_q key))
                           * ((ct_b (c_prime ! a) * b_inv) ^ nat (rnd (k + 1)) mod grp_p (key_G_q key))
                           mod grp_p (key_G_q key)))"
    have "simulate key c_prime a_inv b_inv j rnd (a # idxs) (t, res, chs, k)
            = simulate key c_prime a_inv b_inv j rnd idxs
                (t[a := ?v], res[a := Some (rnd k)], chs[a := Some (rnd (k + 1))], k + 2)"
      by (subst simulate_step [OF p rnd]) (simp add: False)
    with Cons.prems(1) have "simulate key c_prime a_inv b_inv j rnd idxs
                (t[a := ?v], res[a := Some (rnd k)], chs[a := Some (rnd (k + 1))], k + 2)
            = Inr (t', res', chs', k')"
      by simp
    then have "chs' ! i = (chs[a := Some (rnd (k + 1))]) ! i"
      using ii by (rule Cons.IH)
    with ia show ?thesis by simp
  qed
qed

lemma simulate_negative_chs:
  assumes p: "grp_p (key_G_q key) \<noteq> 0" and rnd: "\<forall>k. 0 \<le> rnd k" and j: "j < 0"
  shows "simulate key c_prime a_inv b_inv j rnd [a..<a + d] (t, res, chs, k) = Inr (t', res', chs', k')
     \<Longrightarrow> a + d \<le> length chs \<Longrightarrow> a \<le> i \<Longrightarrow> i < a + d
     \<Longrightarrow> chs' ! i = Some (rnd (k + 2 * (i - a) + 1))"
proof (induction d arbitrary: a t res chs k)
  case 0
  then show ?case by simp
next
  case (Suc d)
  let ?v = "(Some ((key_g key ^ nat (rnd k) mod grp_p (key_G_q key))
                         * ((ct_a (c_prime ! a) * a_inv) ^ nat (rnd (k + 1)) mod grp_p (key_G_q key))
                         mod grp_p (key_G_q key)),
                   Some ((key_y key ^ nat (rnd k) mod grp_p (key_G_q key))
                         * ((ct_b (c_prime ! a) * b_inv) ^ nat (rnd (k + 1)) mod grp_p (key_G_q key))
                         mod grp_p (key_G_q key)))"
  have na: "int a \<noteq> j"
    using j by simp
  have idx: "[a..<a + Suc d] = a # [Suc a..<Suc a + d]"
    by (simp add: upt_conv_Cons)
  have "simulate key c_prime a_inv b_inv j rnd (a # [Suc a..<Suc a + d]) (t, res, chs, k)
          = simulate key c_prime a_inv b_inv j rnd [Suc a..<Suc a + d]
              (t[a := ?v], res[a := Some (rnd k)], chs[a := Some (rnd (k + 1))], k + 2)"
    by (subst simulate_step [OF p rnd]) (simp add: na)
  with Suc.prems(1) idx have run:
    "simulate key c_prime a_inv b_inv j rnd [Suc a..<Suc a + d]
       (t[a := ?v], res[a := Some (rnd k)], chs[a := Some (rnd (k + 1))], k + 2)
     = Inr (t', res', chs', k')"
    by simp
  show ?case
  proof (cases "i = a")
    case True
    have "a \<notin> set [Suc a..<Suc a + d]"
      by simp
    with run have "chs' ! a = (chs[a := Some (rnd (k + 1))]) ! a"
      by (rule simulate_unchanged [OF p rnd])
    with True Suc.prems(2) show ?thesis by simp
  next
    case False
    with Suc.prems have i: "Suc a \<le> i" "i < Suc a + d"
      by simp_all
    have "Suc a + d \<le> length (chs[a := Some (rnd (k + 1))])"
      using Suc.prems(2) by simp
    with run have "chs' ! i = Some (rnd (k + 2 + 2 * (i - Suc a) + 1))"
      using i by (rule Suc.IH)
    moreover have "k + 2 + 2 * (i - Suc a) + 1 = k + 2 * (i - a) + 1"
      using i by simp
    ultimately show ?thesis by (simp only:)
  qed
qed

lemma proof_plaintext_equality_or_negative:
  assumes G: "valid_group (key_G_q key)" and qp: "grp_q (key_G_q key) < grp_p (key_G_q key)"
    and g: "is_element (key_G_q key) (key_g key)" and y: "is_element (key_G_q key) (key_y key)"
    and a: "is_element (key_G_q key) (ct_a c)" and b: "is_element (key_G_q key) (ct_b c)"
    and cs: "\<forall>c' \<in> set c_prime. is_element (key_G_q key) (ct_a c')
                                 \<and> is_element (key_G_q key) (ct_b c')"
    and draws: "\<forall>k. 0 \<le> rnd k \<and> rnd k < grp_q (key_G_q key)"
    and j: "- int (length c_prime) \<le> j" "j < 0"
    and nz: "rnd (2 * nat (int (length c_prime) + j) + 2) \<noteq> 0"
  shows "\<exists>tr trv. proof_plaintext_equality_or key c r c_prime j r_j rnd = Inr tr
           \<and> transcript_values tr = Inr trv
           \<and> verify_plaintext_equality_or trv key c c_prime = Inr False"
proof -
  let ?G = "key_G_q key" and ?n = "length c_prime"
  let ?kj = "nat (int ?n + j)"
  let ?t0 = "map (\<lambda>_. (None, None)) c_prime :: (int option \<times> int option) list"
  let ?res0 = "map (\<lambda>_. None) c_prime :: int option list"
  let ?u1 = "key_g key ^ nat (rnd 0) mod grp_p ?G" and ?u2 = "key_y key ^ nat (rnd 0) mod grp_p ?G"
  let ?ta = "?t0[?kj := (Some ?u1, Some ?u2)]"
  let ?a_inv = "group_power ?G (ct_a c) (- 1)" and ?b_inv = "group_power ?G (ct_b c) (- 1)"
  from G have p: "grp_p ?G \<noteq> 0" and q: "order ?G \<noteq> 0" and p1: "1 < grp_p ?G"
    by (simp_all add: valid_group_def order_def)
  from draws have rnd: "\<forall>k. 0 \<le> rnd k"
    by simp
  have kj: "?kj < ?n"
    using j by auto
  have jj: "- int (length c_prime) \<le> j" "j < int (length c_prime)"
    using j by simp_all
  have u: "powmod ?G (key_g key) (rnd 0) = Inr ?u1" "powmod ?G (key_y key) (rnd 0) = Inr ?u2"
    using p rnd by (simp_all add: powmod_nonneg)
  have ls: "list_set ?t0 j (Some ?u1, Some ?u2) = Inr ?ta"
    using j by (simp add: list_set_in_range)
  have ai: "powmod ?G (ct_a c) (- 1) = Inr ?a_inv" and bi: "powmod ?G (ct_b c) (- 1) = Inr ?b_inv"
    by (rule powmod_element [OF G a], rule powmod_element [OF G b])
  have len0: "length ?res0 = length ?ta" "length ?res0 = length ?ta"
    by simp_all
  obtain t' res' chs' k' where
    sim: "simulate key c_prime ?a_inv ?b_inv j rnd [0..<?n] (?ta, ?res0, ?res0, 1) = Inr (t', res', chs', k')"
    and l: "length t' = length ?ta" "length res' = length ?ta" "length chs' = length ?ta"
    and ft: "\<forall>i < length ?ta. (i \<in> set [0..<?n] \<and> int i \<noteq> j)
               \<or> (fst (?ta ! i) \<noteq> None \<and> snd (?ta ! i) \<noteq> None)
               \<longrightarrow> fst (t' ! i) \<noteq> None \<and> snd (t' ! i) \<noteq> None"
    and fr: "\<forall>i < length ?ta. (i \<in> set [0..<?n] \<and> int i \<noteq> j) \<or> ?res0 ! i \<noteq> None \<longrightarrow> res' ! i \<noteq> None"
    and fc: "\<forall>i < length ?ta. (i \<in> set [0..<?n] \<and> int i \<noteq> j) \<or> ?res0 ! i \<noteq> None \<longrightarrow> chs' ! i \<noteq> None"
    using simulate_total [OF p rnd len0, of c_prime ?a_inv ?b_inv j "[0..<?n]" 1] by blast
  have ln: "length t' = ?n" "length res' = ?n" "length chs' = ?n"
    using l by simp_all
  have idx: "i \<in> set [0..<?n] \<and> int i \<noteq> j" and ita: "i < length ?ta" if "i < ?n" for i
    using that j by simp_all
  have "\<forall>x \<in> set (map fst t'). x \<noteq> None"
  proof
    fix x assume "x \<in> set (map fst t')"
    then obtain i where i: "i < ?n" and "x = fst (t' ! i)"
      using ln(1) by (auto simp add: in_set_conv_nth)
    then show "x \<noteq> None"
      using ft idx [OF i] ita [OF i] by blast
  qed
  then obtain t1s where t1s: "the_values (map fst t') = Inr t1s"
    using the_values_total by blast
  have "\<forall>x \<in> set (map snd t'). x \<noteq> None"
  proof
    fix x assume "x \<in> set (map snd t')"
    then obtain i where i: "i < ?n" and "x = snd (t' ! i)"
      using ln(1) by (auto simp add: in_set_conv_nth)
    then show "x \<noteq> None"
      using ft idx [OF i] ita [OF i] by blast
  qed
  then obtain t2s where t2s: "the_values (map snd t') = Inr t2s"
    using the_values_total by blast
  have "\<forall>x \<in> set res'. x \<noteq> None"
  proof
    fix x assume "x \<in> set res'"
    then obtain i where i: "i < ?n" and "x = res' ! i"
      using ln(2) by (auto simp add: in_set_conv_nth)
    then show "x \<noteq> None"
      using fr idx [OF i] ita [OF i] by blast
  qed
  then obtain rs where rs: "the_values res' = Inr rs"
    using the_values_total by blast
  have "\<forall>x \<in> set chs'. x \<noteq> None"
  proof
    fix x assume "x \<in> set chs'"
    then obtain i where i: "i < ?n" and "x = chs' ! i"
      using ln(3) by (auto simp add: in_set_conv_nth)
    then show "x \<noteq> None"
      using fc idx [OF i] ita [OF i] by blast
  qed
  then obtain cv where cv: "the_values chs' = Inr cv"
    using the_values_total by blast
  have lv: "length t1s = ?n" "length t2s = ?n" "length rs = ?n" "length cv = ?n"
    using the_values_length [OF t1s] the_values_length [OF t2s] the_values_length [OF rs]
      the_values_length [OF cv] ln by simp_all
  obtain m where m: "master_challenge ?G c c_prime t1s t2s = Inr m"
    and m0: "0 \<le> m" and mq: "m < grp_q ?G"
    unfolding master_challenge_def using hashfunc_range [OF G] by blast
  have "filter (\<lambda>i. int i \<noteq> j) [0..<length chs'] = [0..<length chs']"
    using j by (intro filter_True) simp
  then have "map (\<lambda>i. chs' ! i) (filter (\<lambda>i. int i \<noteq> j) [0..<length chs']) = chs'"
    by (simp add: map_nth)
  then have s: "sum_values (map (\<lambda>i. chs' ! i) (filter (\<lambda>i. int i \<noteq> j) [0..<length chs']))
                 = Inr (sum_list cv)"
    using sum_values_the_values [OF cv] by simp
  let ?X = "(m - sum_list cv) mod grp_p ?G"
  let ?R = "(rnd 0 - (r_j - r) * ?X) mod order ?G"
  have lc: "list_set chs' j v = Inr (chs'[?kj := v])" for v
    using j ln(3) by (simp add: list_set_in_range)
  have lr: "list_set res' j v = Inr (res'[?kj := v])" for v
    using j ln(2) by (simp add: list_set_in_range)
  have pm: "pymod x (grp_p ?G) = Inr (x mod grp_p ?G)" "pymod x (order ?G) = Inr (x mod order ?G)" for x
    using p q by (simp_all add: pymod_Inr)
  have made: "proof_plaintext_equality_or key c r c_prime j r_j rnd =
          Inr (t', res'[?kj := Some ?R], chs'[?kj := Some ?X])"
    unfolding proof_plaintext_equality_or_def Let_def
    by (simp only: u ls ai bi sim t1s t2s m s lc lr pm bind_e_Inr prod.case)
  have tv: "transcript_values (t', res'[?kj := Some ?R], chs'[?kj := Some ?X])
              = Inr (zip t1s t2s, rs[?kj := ?R], cv[?kj := ?X])"
    by (simp add: transcript_values_def t1s t2s the_values_update [OF rs] the_values_update [OF cv])
  have old: "cv ! ?kj = rnd (2 * ?kj + 2)"
  proof -
    have sim0: "simulate key c_prime ?a_inv ?b_inv j rnd [0..<0 + ?n] (?ta, ?res0, ?res0, 1)
                  = Inr (t', res', chs', k')"
      using sim by simp
    have "0 + ?n \<le> length ?res0" and "0 \<le> ?kj" and "?kj < 0 + ?n"
      using kj by simp_all
    with sim0 have "chs' ! ?kj = Some (rnd (1 + 2 * (?kj - 0) + 1))"
      by (rule simulate_negative_chs [OF p rnd j(2)])
    moreover have "chs' ! ?kj = Some (cv ! ?kj)"
      using kj ln(3) by (intro the_values_nth [OF cv]) simp
    ultimately show ?thesis by simp
  qed
  have lens: "length (cv[?kj := ?X]) = length (rs[?kj := ?R])"
    "length (rs[?kj := ?R]) = length (zip t1s t2s)" "length (zip t1s t2s) = length c_prime"
    using lv by simp_all
  obtain m' where m': "master_challenge ?G c c_prime (map fst (zip t1s t2s)) (map snd (zip t1s t2s)) = Inr m'"
    and v: "verify_plaintext_equality_or (zip t1s t2s, rs[?kj := ?R], cv[?kj := ?X]) key c c_prime =
               Inr (m' = sum_list (cv[?kj := ?X]) mod grp_p ?G
                    \<and> list_all (\<lambda>((ti1, ti2), res_i, challenge_i, c_prime_i).
                          ti1 = group_power ?G (key_g key) res_i
                                * group_power ?G (ct_a c_prime_i * ?a_inv) challenge_i mod grp_p ?G
                          \<and> ti2 = group_power ?G (key_y key) res_i
                                * group_power ?G (ct_b c_prime_i * ?b_inv) challenge_i mod grp_p ?G)
                        (zip (zip t1s t2s) (zip (rs[?kj := ?R]) (zip (cv[?kj := ?X]) c_prime))))"
    using verify_plaintext_equality_or_value [OF G g y a b cs lens] by blast
  have "map fst (zip t1s t2s) = t1s" "map snd (zip t1s t2s) = t2s"
    using lv by (simp_all add: map_fst_zip map_snd_zip)
  with m m' have mm: "m' = m"
    by simp
  have "sum_list (cv[?kj := ?X]) = sum_list cv - cv ! ?kj + ?X"
    using kj lv(4) by (intro sum_list_update_int) simp
  then have "sum_list (cv[?kj := ?X]) mod grp_p ?G = (sum_list cv - cv ! ?kj + (m - sum_list cv)) mod grp_p ?G"
    by (simp add: mod_add_right_eq)
  also have "\<dots> = (m - cv ! ?kj) mod grp_p ?G"
    by (simp add: algebra_simps)
  finally have sm: "sum_list (cv[?kj := ?X]) mod grp_p ?G = (m - cv ! ?kj) mod grp_p ?G" .
  have "m \<noteq> (m - cv ! ?kj) mod grp_p ?G"
  proof
    assume e: "m = (m - cv ! ?kj) mod grp_p ?G"
    have "m mod grp_p ?G = m"
      using m0 mq qp by simp
    with e have "(m - cv ! ?kj) mod grp_p ?G = m mod grp_p ?G"
      by simp
    then have "grp_p ?G dvd (m - cv ! ?kj) - m"
      by (simp only: mod_eq_dvd_iff)
    then have "grp_p ?G dvd cv ! ?kj"
      by simp
    moreover have "0 < cv ! ?kj" and "cv ! ?kj < grp_p ?G"
    proof -
      from draws have "0 \<le> rnd (2 * ?kj + 2)" and "rnd (2 * ?kj + 2) < grp_q ?G"
        by blast+
      with nz qp old show "0 < cv ! ?kj" and "cv ! ?kj < grp_p ?G"
        by linarith+
    qed
    ultimately show False
      by (simp add: zdvd_not_zless)
  qed
  with v mm sm have "verify_plaintext_equality_or (zip t1s t2s, rs[?kj := ?R], cv[?kj := ?X]) key c c_prime
                       = Inr False"
    by simp
  with made tv show ?thesis by blast
qed

lemma inv12: "mod_inverse 12 23 = Some 2"
  by code_simp

lemma power_24_mod_23: "(24 :: int) ^ k mod 23 = 1"
proof -
  have "(24 :: int) ^ k mod 23 = (24 mod 23) ^ k mod 23"
    by (simp only: power_mod)
  then show ?thesis by simp
qed

text \<open>
  Claim C3, as amended. With \<open>n\<close> alternatives (and a ciphertext \<open>c\<close> made of elements of the
  group), \<^verbatim>\<open>proof_plaintext_equality_or\<close> returns a transcript for every index \<open>j\<close> with
  \<open>-n \<le> j < n\<close>: a negative index in this range counts from the end of the lists. For every
  other index (\<open>j \<ge> n\<close> or \<open>j < -n\<close>) the assignment \<^verbatim>\<open>t[j] = ...\<close> raises \<^verbatim>\<open>IndexError\<close>.
  For a negative index in the range the loop never skips an entry, so the entry \<open>n + j\<close> is
  simulated and its challenge is then overwritten; that challenge is the draw number
  \<open>2 (n + j) + 2\<close>. With a key and alternatives made of group elements, \<open>q < p\<close> and every draw
  in \<open>[0, q)\<close>, the transcript fails verification (the verifier returns \<^verbatim>\<open>False\<close>) whenever
  that draw is not 0.
\<close>

theorem proof_plaintext_equality_or_any_index:
  assumes "valid_group (key_G_q key)"
    and "is_element (key_G_q key) (ct_a c)" and "is_element (key_G_q key) (ct_b c)"
    and "\<forall>k. 0 \<le> rnd k"
  shows "(if - int (length c_prime) \<le> j \<and> j < int (length c_prime)
          then \<exists>tr. proof_plaintext_equality_or key c r c_prime j r_j rnd = Inr tr
          else proof_plaintext_equality_or key c r c_prime j r_j rnd = Inl IndexError)
       \<and> (- int (length c_prime) \<le> j \<and> j < 0
            \<and> grp_q (key_G_q key) < grp_p (key_G_q key)
            \<and> is_element (key_G_q key) (key_g key) \<and> is_element (key_G_q key) (key_y key)
            \<and> (\<forall>c' \<in> set c_prime. is_element (key_G_q key) (ct_a c')
                                   \<and> is_element (key_G_q key) (ct_b c'))
            \<and> (\<forall>k. rnd k < grp_q (key_G_q key))
            \<and> rnd (2 * nat (int (length c_prime) + j) + 2) \<noteq> 0
          \<longrightarrow> (\<exists>tr trv. proof_plaintext_equality_or key c r c_prime j r_j rnd = Inr tr
                 \<and> transcript_values tr = Inr trv
                 \<and> verify_plaintext_equality_or trv key c c_prime = Inr False))"
proof (intro conjI impI)
  show "if - int (length c_prime) \<le> j \<and> j < int (length c_prime)
        then \<exists>tr. proof_plaintext_equality_or key c r c_prime j r_j rnd = Inr tr
        else proof_plaintext_equality_or key c r c_prime j r_j rnd = Inl IndexError"
  proof (cases "- int (length c_prime) \<le> j \<and> j < int (length c_prime)")
    case True
    then have jj: "- int (length c_prime) \<le> j" "j < int (length c_prime)"
      by simp_all
    show ?thesis
      unfolding if_P [OF True]
      by (rule proof_plaintext_equality_or_in_range [OF assms jj])
  next
    case False
    show ?thesis
      unfolding if_not_P [OF False]
      by (rule proof_plaintext_equality_or_out_of_range [OF assms(1,4) False])
  qed
next
  assume h: "- int (length c_prime) \<le> j \<and> j < 0
               \<and> grp_q (key_G_q key) < grp_p (key_G_q key)
               \<and> is_element (key_G_q key) (key_g key) \<and> is_element (key_G_q key) (key_y key)
               \<and> (\<forall>c' \<in> set c_prime. is_element (key_G_q key) (ct_a c')
                                      \<and> is_element (key_G_q key) (ct_b c'))
               \<and> (\<forall>k. rnd k < grp_q (key_G_q key))
               \<and> rnd (2 * nat (int (length c_prime) + j) + 2) \<noteq> 0"
  then have j: "- int (length c_prime) \<le> j" "j < 0"
    and qp: "grp_q (key_G_q key) < grp_p (key_G_q key)"
    and g: "is_element (key_G_q key) (key_g key)" and y: "is_element (key_G_q key) (key_y key)"
    and cs: "\<forall>c' \<in> set c_prime. is_element (key_G_q key) (ct_a c')
                                 \<and> is_element (key_G_q key) (ct_b c')"
    and nz: "rnd (2 * nat (int (length c_prime) + j) + 2) \<noteq> 0"
    by simp_all
  from h assms(4) have draws: "\<forall>k. 0 \<le> rnd k \<and> rnd k < grp_q (key_G_q key)"
    by simp
  show "\<exists>tr trv. proof_plaintext_equality_or key c r c_prime j r_j rnd = Inr tr
                 \<and> transcript_values tr = Inr trv
                 \<and> verify_plaintext_equality_or trv key c c_prime = Inr False"
    by (rule proof_plaintext_equality_or_negative [OF assms(1) qp g y assms(2,3) cs draws j nz])
qed

theorem proof_plaintext_equality_or_any_index_witness:
  "(\<exists>tr. proof_plaintext_equality_or
           \<lparr>key_G_q = \<lparr>grp_p = 23, grp_q = 11\<rparr>, key_g = 4, key_y = 18\<rparr>
           \<lparr>ct_G_q = \<lparr>grp_p = 23, grp_q = 11\<rparr>, ct_a = 12, ct_b = 12\<rparr> 5
           [\<lparr>ct_G_q = \<lparr>grp_p = 23, grp_q = 11\<rparr>, ct_a = 2, ct_b = 3\<rparr>,
            \<lparr>ct_G_q = \<lparr>grp_p = 23, grp_q = 11\<rparr>, ct_a = 9, ct_b = 16\<rparr>] (- 1) 7
           (\<lambda>k. int k mod 11) = Inr tr)
   \<and> (\<exists>tr trv. proof_plaintext_equality_or
           \<lparr>key_G_q = \<lparr>grp_p = 23, grp_q = 11\<rparr>, key_g = 4, key_y = 18\<rparr>
           \<lparr>ct_G_q = \<lparr>grp_p = 23, grp_q = 11\<rparr>, ct_a = 12, ct_b = 12\<rparr> 5
           [\<lparr>ct_G_q = \<lparr>grp_p = 23, grp_q = 11\<rparr>, ct_a = 2, ct_b = 3\<rparr>,
            \<lparr>ct_G_q = \<lparr>grp_p = 23, grp_q = 11\<rparr>, ct_a = 9, ct_b = 16\<rparr>] (- 1) 7
           (\<lambda>k. int k mod 11) = Inr tr
        \<and> transcript_values tr = Inr trv
        \<and> verify_plaintext_equality_or trv
             \<lparr>key_G_q = \<lparr>grp_p = 23, grp_q = 11\<rparr>, key_g = 4, key_y = 18\<rparr>
             \<lparr>ct_G_q = \<lparr>grp_p = 23, grp_q = 11\<rparr>, ct_a = 12, ct_b = 12\<rparr>
             [\<lparr>ct_G_q = \<lparr>grp_p = 23, grp_q = 11\<rparr>, ct_a = 2, ct_b = 3\<rparr>,
              \<lparr>ct_G_q = \<lparr>grp_p = 23, grp_q = 11\<rparr>, ct_a = 9, ct_b = 16\<rparr>] = Inr False)"
  using proof_plaintext_equality_or_any_index
    [where key = "\<lparr>key_G_q = \<lparr>grp_p = 23, grp_q = 11\<rparr>, key_g = 4, key_y = 18\<rparr>"
       and c = "\<lparr>ct_G_q = \<lparr>grp_p = 23, grp_q = 11\<rparr>, ct_a = 12, ct_b = 12\<rparr>"
       and c_prime = "[\<lparr>ct_G_q = \<lparr>grp_p = 23, grp_q = 11\<rparr>, ct_a = 2, ct_b = 3\<rparr>,
            \<lparr>ct_G_q = \<lparr>grp_p = 23, grp_q = 11\<rparr>, ct_a = 9, ct_b = 16\<rparr>]"
       and j = "- 1" and r = 5 and r_j = 7 and rnd = "\<lambda>k. int k mod 11"]
  by (simp add: valid_group_def is_element_def)

text \<open>
  Claim C3 as stated fails. With two alternatives and \<open>j = 2\<close> the prover raises
  \<^verbatim>\<open>IndexError\<close>. And a transcript returned for an index outside \<open>[0, n)\<close> need not fail
  verification: with the one alternative \<open>c\<close> itself, \<open>j = -1\<close> and the draws 3, 3, 0 (the
  overwritten challenge is 0) the verifier accepts the transcript the prover returns.
\<close>

theorem proof_plaintext_equality_or_any_index_counterexample:
  "proof_plaintext_equality_or
     \<lparr>key_G_q = \<lparr>grp_p = 23, grp_q = 11\<rparr>, key_g = 4, key_y = 18\<rparr>
     \<lparr>ct_G_q = \<lparr>grp_p = 23, grp_q = 11\<rparr>, ct_a = 12, ct_b = 12\<rparr> 5
     [\<lparr>ct_G_q = \<lparr>grp_p = 23, grp_q = 11\<rparr>, ct_a = 2, ct_b = 3\<rparr>,
      \<lparr>ct_G_q = \<lparr>grp_p = 23, grp_q = 11\<rparr>, ct_a = 9, ct_b = 16\<rparr>] 2 7 (\<lambda>k. int k mod 11)
   = Inl IndexError
   \<and> proof_plaintext_equality_or
       \<lparr>key_G_q = \<lparr>grp_p = 23, grp_q = 11\<rparr>, key_g = 4, key_y = 18\<rparr>
       \<lparr>ct_G_q = \<lparr>grp_p = 23, grp_q = 11\<rparr>, ct_a = 12, ct_b = 12\<rparr> 5
       [\<lparr>ct_G_q = \<lparr>grp_p = 23, grp_q = 11\<rparr>, ct_a = 12, ct_b = 12\<rparr>] (- 1) 5
       (\<lambda>k. if k = 2 then 0 else 3)
     = Inr ([(Some 18, Some 13)], [Some 3],
            [Some (projr (master_challenge \<lparr>grp_p = 23, grp_q = 11\<rparr>
                            \<lparr>ct_G_q = \<lparr>grp_p = 23, grp_q = 11\<rparr>, ct_a = 12, ct_b = 12\<rparr>
                            [\<lparr>ct_G_q = \<lparr>grp_p = 23, grp_q = 11\<rparr>, ct_a = 12, ct_b = 12\<rparr>]
                            [18] [13]))])
   \<and> verify_plaintext_equality_or
       ([(18, 13)], [3],
        [projr (master_challenge \<lparr>grp_p = 23, grp_q = 11\<rparr>
                  \<lparr>ct_G_q = \<lparr>grp_p = 23, grp_q = 11\<rparr>, ct_a = 12, ct_b = 12\<rparr>
                  [\<lparr>ct_G_q = \<lparr>grp_p = 23, grp_q = 11\<rparr>, ct_a = 12, ct_b = 12\<rparr>]
                  [18] [13])])
       \<lparr>key_G_q = \<lparr>grp_p = 23, grp_q = 11\<rparr>, key_g = 4, key_y = 18\<rparr>
       \<lparr>ct_G_q = \<lparr>grp_p = 23, grp_q = 11\<rparr>, ct_a = 12, ct_b = 12\<rparr>
       [\<lparr>ct_G_q = \<lparr>grp_p = 23, grp_q = 11\<rparr>, ct_a = 12, ct_b = 12\<rparr>]
     = Inr True"
proof -
  let ?G = "\<lparr>grp_p = 23, grp_q = 11\<rparr>"
  let ?key = "\<lparr>key_G_q = ?G, key_g = 4, key_y = 18\<rparr>"
  let ?c = "\<lparr>ct_G_q = ?G, ct_a = 12, ct_b = 12\<rparr>"
  have G: "valid_group ?G"
    by (simp add: valid_group_def)
  obtain m where m: "master_challenge ?G ?c [?c] [18] [13] = Inr m" and m0: "0 \<le> m" and m11: "m < 11"
    unfolding master_challenge_def using hashfunc_range [OF G] by auto
  have mm: "m mod 23 = m"
    using m0 m11 by simp
  have inv: "powmod ?G 12 (- 1) = Inr 2"
    by (simp add: powmod_def inv12)
  have p1: "powmod ?G 4 3 = Inr 18" and p2: "powmod ?G 18 3 = Inr 13"
    and p3: "powmod ?G 24 0 = Inr 1"
    by (simp_all add: powmod_def)
  have p4: "powmod ?G 24 m = Inr 1"
    using m0 by (simp add: powmod_def power_24_mod_23)
  have out: "proof_plaintext_equality_or ?key ?c 5
       [\<lparr>ct_G_q = ?G, ct_a = 2, ct_b = 3\<rparr>, \<lparr>ct_G_q = ?G, ct_a = 9, ct_b = 16\<rparr>] 2 7
       (\<lambda>k. int k mod 11) = Inl IndexError"
    by (simp add: proof_plaintext_equality_or_def powmod_def list_set_def)
  have made: "proof_plaintext_equality_or ?key ?c 5 [?c] (- 1) 5 (\<lambda>k. if k = 2 then 0 else 3)
                = Inr ([(Some 18, Some 13)], [Some 3], [Some m])"
    by (simp add: proof_plaintext_equality_or_def list_set_def inv p1 p2 p3 m mm pymod_def order_def)
  have ok: "verify_plaintext_equality_or ([(18, 13)], [3], [m]) ?key ?c [?c] = Inr True"
    by (simp add: verify_plaintext_equality_or_def inv p1 p2 p4 m mm pymod_def)
  show ?thesis
    by (simp only: m sum.sel out made ok simp_thms)
qed

subsection \<open>The binding constraint\<close>

text \<open>
  Both the prover and the verifier reduce the sum of the challenges modulo the modulus \<open>p\<close> of
  the group (\<^verbatim>\<open>% G_q.p\<close>), not modulo its order \<open>q\<close>: the lemma
  \<open>proof_plaintext_equality_or_result\<close> gives the real challenge of the prover as
  \<open>(m - s) mod p\<close>. The exponents count modulo \<open>q\<close>, so a challenge can be shifted by a
  multiple of \<open>q\<close> to meet the constraint modulo \<open>p\<close>.
\<close>

lemma forged_master_value:
  "hashfunc \<lparr>grp_p = 23, grp_q = 11\<rparr> [12, 8, 12, 12, 4, 8] = Inr 10"
  by code_simp

text \<open>
  Claim C1 says that the verifier accepts only if the sum of the challenges is congruent to
  the master challenge modulo \<open>q\<close>. In the group \<open>p = 23\<close>, \<open>q = 11\<close>, \<open>g = 4\<close> with the public
  key \<open>y = 18\<close>, the ciphertext \<open>c = (12, 12)\<close> encrypts 4 and \<open>c' = (8, 12)\<close> encrypts 2. The
  transcript \<open>([(4, 8)], [6], [102])\<close> is simulated with the challenge 3 and the response 6;
  the master challenge is 10. The challenge 102 is 3 modulo 11 and 10 modulo 23: the code
  accepts it, although 102 is not congruent to 10 modulo \<open>q = 11\<close> (and although the two
  plaintexts differ).
\<close>

theorem verify_plaintext_equality_or_accepts_forged:
  "master_challenge \<lparr>grp_p = 23, grp_q = 11\<rparr>
      \<lparr>ct_G_q = \<lparr>grp_p = 23, grp_q = 11\<rparr>, ct_a = 12, ct_b = 12\<rparr>
      [\<lparr>ct_G_q = \<lparr>grp_p = 23, grp_q = 11\<rparr>, ct_a = 8, ct_b = 12\<rparr>] [4] [8] = Inr 10
   \<and> verify_plaintext_equality_or ([(4, 8)], [6], [102])
       \<lparr>key_G_q = \<lparr>grp_p = 23, grp_q = 11\<rparr>, key_g = 4, key_y = 18\<rparr>
       \<lparr>ct_G_q = \<lparr>grp_p = 23, grp_q = 11\<rparr>, ct_a = 12, ct_b = 12\<rparr>
       [\<lparr>ct_G_q = \<lparr>grp_p = 23, grp_q = 11\<rparr>, ct_a = 8, ct_b = 12\<rparr>] = Inr True
   \<and> (102 :: int) mod 11 \<noteq> 10 mod 11"
proof -
  let ?G = "\<lparr>grp_p = 23, grp_q = 11\<rparr>"
  have m: "master_challenge ?G \<lparr>ct_G_q = ?G, ct_a = 12, ct_b = 12\<rparr>
             [\<lparr>ct_G_q = ?G, ct_a = 8, ct_b = 12\<rparr>] [4] [8] = Inr 10"
    by (simp add: master_challenge_def forged_master_value)
  have inv: "powmod ?G 12 (- 1) = Inr 2"
    by (simp add: powmod_def inv12)
  have p: "powmod ?G 4 6 = Inr 2" "powmod ?G 16 102 = Inr 2"
    "powmod ?G 18 6 = Inr 8" "powmod ?G 24 102 = Inr 1"
    by (simp_all add: powmod_def)
  have "verify_plaintext_equality_or ([(4, 8)], [6], [102])
          \<lparr>key_G_q = ?G, key_g = 4, key_y = 18\<rparr> \<lparr>ct_G_q = ?G, ct_a = 12, ct_b = 12\<rparr>
          [\<lparr>ct_G_q = ?G, ct_a = 8, ct_b = 12\<rparr>] = Inr True"
    by (simp add: verify_plaintext_equality_or_def m inv p pymod_def)
  with m show ?thesis
    by simp
qed

end
